theory Spec2Isabelle
  imports Complex_Main "HOL-Library.Word"
begin

section \<open>JavaScript strings\<close>

text \<open>
  A JavaScript string is a sequence of UTF-16 code units; \<open>length\<close>, \<open>slice\<close> and the
  regular expressions of the sources (none has the \<open>u\<close> flag) all count code units.
  \<open>js\<close> writes an ASCII literal of the sources as such a sequence.
\<close>

type_synonym jsstring = "16 word list"

definition js :: "string \<Rightarrow> jsstring" where
  "js s = map (\<lambda>c. of_nat (of_char c)) s"

text \<open>
  The class \<open>\s\<close> of a regular expression, which is also what \<open>String.prototype.trim\<close>
  strips: the white space and line terminator code points of ECMAScript.
\<close>

definition is_ws :: "16 word \<Rightarrow> bool" where
  "is_ws c \<longleftrightarrow>
     (0x0009 \<le> c \<and> c \<le> 0x000D) \<or> c = 0x0020 \<or> c = 0x00A0 \<or> c = 0x1680 \<or>
     (0x2000 \<le> c \<and> c \<le> 0x200A) \<or> c = 0x2028 \<or> c = 0x2029 \<or> c = 0x202F \<or>
     c = 0x205F \<or> c = 0x3000 \<or> c = 0xFEFF"

text \<open>\<open>s.replace(/\s+/g, " ")\<close>: every maximal run of white space becomes one space.\<close>

function replace_ws :: "jsstring \<Rightarrow> jsstring" where
  "replace_ws [] = []"
| "replace_ws (c # cs) =
     (if is_ws c then 0x0020 # replace_ws (dropWhile is_ws cs) else c # replace_ws cs)"
  by pat_completeness auto
termination
  by (relation "measure length") (auto simp: length_dropWhile_le less_Suc_eq_le)

text \<open>\<open>s.trim()\<close>.\<close>

definition trim :: "jsstring \<Rightarrow> jsstring" where
  "trim s = rev (dropWhile is_ws (rev (dropWhile is_ws s)))"

text \<open>\<open>s.slice(0, n)\<close> for \<open>0 \<le> n\<close> is \<open>take n s\<close>; \<open>s.slice(i)\<close> is \<open>drop i s\<close>.\<close>

section \<open>decodeURIComponent\<close>

text \<open>
  The \<open>Decode\<close> operation of ECMAScript with an empty set of preserved escapes. A
  \<open>URIError\<close> is the value \<open>None\<close>.
\<close>

definition hex_digit :: "16 word \<Rightarrow> nat option" where
  "hex_digit c =
     (if 0x30 \<le> c \<and> c \<le> 0x39 then Some (unat c - 0x30)
      else if 0x41 \<le> c \<and> c \<le> 0x46 then Some (unat c - 0x41 + 10)
      else if 0x61 \<le> c \<and> c \<le> 0x66 then Some (unat c - 0x61 + 10)
      else None)"

text \<open>An escape \<open>%XY\<close> at the head of the string: its octet and the rest.\<close>

fun parse_escape :: "jsstring \<Rightarrow> (nat \<times> jsstring) option" where
  "parse_escape (p # h # l # rest) =
     (if p = 0x25 then
        (case hex_digit h of None \<Rightarrow> None
         | Some a \<Rightarrow> (case hex_digit l of None \<Rightarrow> None | Some b \<Rightarrow> Some (16 * a + b, rest)))
      else None)"
| "parse_escape _ = None"

text \<open>The \<open>j\<close> continuation escapes of a multi-octet sequence.\<close>

fun continuation :: "nat \<Rightarrow> jsstring \<Rightarrow> (nat list \<times> jsstring) option" where
  "continuation 0 s = Some ([], s)"
| "continuation (Suc j) s =
     (case parse_escape s of None \<Rightarrow> None
      | Some (b, rest) \<Rightarrow>
          (case continuation j rest of None \<Rightarrow> None
           | Some (bs, rest') \<Rightarrow> Some (b # bs, rest')))"

text \<open>The number of leading 1 bits of an octet.\<close>

definition leading_ones :: "nat \<Rightarrow> nat" where
  "leading_ones b =
     (if b < 0x80 then 0 else if b < 0xC0 then 1 else if b < 0xE0 then 2
      else if b < 0xF0 then 3 else if b < 0xF8 then 4 else 5)"

definition is_cont :: "nat \<Rightarrow> bool" where
  "is_cont b \<longleftrightarrow> 0x80 \<le> b \<and> b < 0xC0"

text \<open>
  The code point of a well-formed UTF-8 sequence of two to four octets: no overlong
  form, no surrogate, nothing beyond U+10FFFF.
\<close>

fun utf8_code_point :: "nat list \<Rightarrow> nat option" where
  "utf8_code_point [b0, b1] =
     (let v = (b0 mod 0x20) * 0x40 + b1 mod 0x40
      in if is_cont b1 \<and> 0x80 \<le> v then Some v else None)"
| "utf8_code_point [b0, b1, b2] =
     (let v = (b0 mod 0x10) * 0x1000 + (b1 mod 0x40) * 0x40 + b2 mod 0x40
      in if is_cont b1 \<and> is_cont b2 \<and> 0x800 \<le> v \<and> \<not> (0xD800 \<le> v \<and> v \<le> 0xDFFF)
         then Some v else None)"
| "utf8_code_point [b0, b1, b2, b3] =
     (let v = (b0 mod 0x08) * 0x40000 + (b1 mod 0x40) * 0x1000 + (b2 mod 0x40) * 0x40
              + b3 mod 0x40
      in if is_cont b1 \<and> is_cont b2 \<and> is_cont b3 \<and> 0x10000 \<le> v \<and> v \<le> 0x10FFFF
         then Some v else None)"
| "utf8_code_point _ = None"

definition UTF16EncodeCodePoint :: "nat \<Rightarrow> jsstring" where
  "UTF16EncodeCodePoint v =
     (if v \<le> 0xFFFF then [of_nat v]
      else [of_nat ((v - 0x10000) div 0x400 + 0xD800),
            of_nat ((v - 0x10000) mod 0x400 + 0xDC00)])"

lemma parse_escape_shorter:
  "parse_escape s = Some (b, rest) \<Longrightarrow> length rest < length s"
  by (induction s rule: parse_escape.induct) (auto split: if_splits option.splits)

lemma continuation_shorter:
  "continuation j s = Some (bs, rest) \<Longrightarrow> length rest \<le> length s"
proof (induction j arbitrary: s bs rest)
  case 0
  then show ?case by simp
next
  case (Suc j)
  from Suc.prems obtain b r bs' where
    p: "parse_escape s = Some (b, r)" and c: "continuation j r = Some (bs', rest)"
    by (auto split: option.splits)
  from Suc.IH [OF c] parse_escape_shorter [OF p] show ?case by simp
qed

function decodeURIComponent :: "jsstring \<Rightarrow> jsstring option" where
  "decodeURIComponent [] = Some []"
| "decodeURIComponent (c # cs) =
     (if c \<noteq> 0x25 then map_option ((#) c) (decodeURIComponent cs)
      else
        (case parse_escape (c # cs) of None \<Rightarrow> None
         | Some (b, rest) \<Rightarrow>
             (let n = leading_ones b
              in if n = 0 then map_option ((#) (of_nat b)) (decodeURIComponent rest)
                 else if n = 1 \<or> 4 < n then None
                 else
                   (case continuation (n - 1) rest of None \<Rightarrow> None
                    | Some (bs, rest') \<Rightarrow>
                        (case utf8_code_point (b # bs) of None \<Rightarrow> None
                         | Some v \<Rightarrow>
                             map_option ((@) (UTF16EncodeCodePoint v))
                               (decodeURIComponent rest'))))))"
  by pat_completeness auto
termination
proof (relation "measure length", goal_cases)
  case 1
  show ?case by simp
next
  case (2 c cs)
  then show ?case by simp
next
  case (3 c cs x2 b rest n)
  then show ?case using parse_escape_shorter [of "c # cs" b rest] by simp
next
  case (4 c cs x2 b rest n x2a bs rest' v)
  then show ?case
    using parse_escape_shorter [of "c # cs" b rest]
      continuation_shorter [of "n - 1" rest bs rest'] by simp
qed

section \<open>sanitizeQuote\<close>

text \<open>
  The quote-share page and the OpenGraph image route each declare their own
  \<open>sanitizeQuote\<close>. The page receives a query parameter of Next.js, of type
  \<open>string | string[] | undefined\<close>; the route receives the \<open>string | null\<close> of
  \<open>URLSearchParams.get\<close>.
\<close>

datatype query_param = Absent | Single jsstring | Multiple "jsstring list"

datatype js_error = TypeError | URIError

definition MAX_QUOTE_LENGTH :: nat where
  "MAX_QUOTE_LENGTH = 280"

text \<open>\<open>!raw\<close>: \<open>undefined\<close> and the empty string are falsy, every array is truthy.\<close>

fun falsy_param :: "query_param \<Rightarrow> bool" where
  "falsy_param Absent = True"
| "falsy_param (Single s) = (s = [])"
| "falsy_param (Multiple xs) = False"

text \<open>
  \<open>Array.isArray(raw) ? raw[0] : raw\<close> for a truthy \<open>raw\<close>; \<open>raw[0]\<close> of an empty array
  is \<open>undefined\<close>, here \<open>None\<close>.
\<close>

fun first_value :: "query_param \<Rightarrow> jsstring option" where
  "first_value Absent = None"
| "first_value (Single s) = Some s"
| "first_value (Multiple []) = None"
| "first_value (Multiple (x # xs)) = Some x"

text \<open>\<open>ToString\<close> of a value that is a string or \<open>undefined\<close>, as \<open>decodeURIComponent\<close>
  applies it to its argument.\<close>

fun ToString :: "jsstring option \<Rightarrow> jsstring" where
  "ToString None = js ''undefined''"
| "ToString (Some s) = s"

text \<open>
  The page's function. After the \<open>try\<close>, \<open>decoded\<close> is the decoder's string or, when the
  decoder threw, \<open>value\<close> itself; calling \<open>replace\<close> on an \<open>undefined\<close> would throw a
  \<open>TypeError\<close>.
\<close>

definition sanitizeQuote_page :: "query_param \<Rightarrow> js_error + jsstring" where
  "sanitizeQuote_page raw =
     (if falsy_param raw then Inr []
      else
        (let value = first_value raw;
             decoded = (case decodeURIComponent (ToString value) of
                          Some d \<Rightarrow> Some d
                        | None \<Rightarrow> value)
         in case decoded of
              None \<Rightarrow> Inl TypeError
            | Some d \<Rightarrow>
                (let normalized = trim (replace_ws d)
                 in if normalized = [] then Inr []
                    else Inr (if MAX_QUOTE_LENGTH < length normalized
                              then take MAX_QUOTE_LENGTH normalized
                              else normalized))))"

text \<open>The route's function; \<open>null\<close> and \<open>undefined\<close> are both \<open>None\<close>.\<close>

definition sanitizeQuote_route :: "jsstring option \<Rightarrow> js_error + jsstring" where
  "sanitizeQuote_route value =
     (case value of
        None \<Rightarrow> Inr []
      | Some v \<Rightarrow>
          (if v = [] then Inr []
           else
             (let decoded = (case decodeURIComponent v of Some d \<Rightarrow> d | None \<Rightarrow> v);
                  normalized = trim (replace_ws decoded)
              in if normalized = [] then Inr []
                 else Inr (if MAX_QUOTE_LENGTH < length normalized
                           then take MAX_QUOTE_LENGTH normalized
                           else normalized))))"

section \<open>Numbers in template literals\<close>

text \<open>
  \<open>`${n}`\<close> for a non-negative integer below \<open>10^21\<close> is its decimal numeral without
  leading zeros. Counters of the sources (\<open>partIndex\<close>, \<open>occurrenceCount\<close>) are
  doubles that start at 0 and grow by 1; they are modelled as \<open>nat\<close>, exact up to \<open>2^53\<close>.
\<close>

fun dec :: "nat \<Rightarrow> jsstring" where
  "dec n = (if n < 10 then [of_nat (0x30 + n)]
            else dec (n div 10) @ [of_nat (0x30 + n mod 10)])"

declare dec.simps [simp del]

section \<open>Quote selection\<close>

text \<open>
  The component state of the quote menu. Coordinates are doubles in the source and
  reals here; nothing below depends on their values.
\<close>

record quote_state =
  showQuoteMenu :: bool
  quoteText :: jsstring
  quoteWarning :: "jsstring option"
  quoteMenuPosition :: "(real \<times> real) option"

record rect =
  top_r :: real
  left_r :: real
  width_r :: real
  height_r :: real

text \<open>
  What \<open>handleSelection\<close> reads of the DOM selection: \<open>outsideContent\<close> is the source's
  \<open>contentRef.current && containerNode && !contentRef.current.contains(containerNode)\<close>.
\<close>

record selection =
  isCollapsed :: bool
  toString :: jsstring
  outsideContent :: bool
  boundingClientRect :: rect
  clientRects :: "rect list"

record scroll =
  scrollY :: real
  scrollTop :: real
  scrollX :: real
  scrollLeft :: real

definition MIN_QUOTE_LENGTH :: nat where
  "MIN_QUOTE_LENGTH = 16"

text \<open>\<open>window.getSelection()\<close> may be \<open>null\<close>: the selection is an option.\<close>

definition handleSelection :: "scroll \<Rightarrow> selection option \<Rightarrow> quote_state \<Rightarrow> quote_state" where
  "handleSelection w sel st =
     (case sel of
        None \<Rightarrow> st
      | Some s \<Rightarrow>
          if isCollapsed s then st
          else
            (let text = trim (replace_ws (toString s))
             in if text = [] then st
                else if outsideContent s then st
                else
                  (let (normalized, warning) =
                         (if MAX_QUOTE_LENGTH < length text
                          then (take MAX_QUOTE_LENGTH text,
                                Some (js ''Quote truncated to '' @ dec MAX_QUOTE_LENGTH
                                      @ js '' characters.''))
                          else if length text < MIN_QUOTE_LENGTH
                          then (text,
                                Some (js ''Try selecting a little more text for better context.''))
                          else (text, None));
                       baseRect = boundingClientRect s;
                       rect = (if width_r baseRect = 0 \<and> height_r baseRect = 0
                               then (case clientRects s of [] \<Rightarrow> baseRect | r # _ \<Rightarrow> r)
                               else baseRect);
                       sy = (if scrollY w \<noteq> 0 then scrollY w else scrollTop w);
                       sx = (if scrollX w \<noteq> 0 then scrollX w else scrollLeft w);
                       menu_top = max (sy + 12) (top_r rect + sy - 16);
                       menu_left = left_r rect + width_r rect / 2 + sx
                   in st\<lparr>quoteWarning := warning, quoteText := normalized,
                         quoteMenuPosition := Some (menu_top, menu_left),
                         showQuoteMenu := True\<rparr>)))"

text \<open>\<open>resetQuoteSelection\<close>; it also clears the DOM selection, which is not state here.\<close>

definition resetQuoteSelection :: "quote_state \<Rightarrow> quote_state" where
  "resetQuoteSelection st =
     st\<lparr>showQuoteMenu := False, quoteText := [], quoteWarning := None,
        quoteMenuPosition := None\<rparr>"

section \<open>encodeURIComponent and the URL of the compose action\<close>

definition is_alnum :: "16 word \<Rightarrow> bool" where
  "is_alnum c \<longleftrightarrow>
     (0x30 \<le> c \<and> c \<le> 0x39) \<or> (0x41 \<le> c \<and> c \<le> 0x5A) \<or> (0x61 \<le> c \<and> c \<le> 0x7A)"

text \<open>The characters \<open>encodeURIComponent\<close> leaves alone: letters, digits and \<open>-_.!~*'()\<close>.\<close>

definition uri_unescaped :: "16 word \<Rightarrow> bool" where
  "uri_unescaped c \<longleftrightarrow> is_alnum c \<or> c \<in> set (js ''-_.!~*()'') \<or> c = 0x27"

definition is_lead :: "16 word \<Rightarrow> bool" where
  "is_lead c \<longleftrightarrow> 0xD800 \<le> c \<and> c \<le> 0xDBFF"

definition is_trail :: "16 word \<Rightarrow> bool" where
  "is_trail c \<longleftrightarrow> 0xDC00 \<le> c \<and> c \<le> 0xDFFF"

definition surrogate_pair :: "16 word \<Rightarrow> 16 word \<Rightarrow> nat" where
  "surrogate_pair hi lo = (unat hi - 0xD800) * 0x400 + (unat lo - 0xDC00) + 0x10000"

definition utf8_encode :: "nat \<Rightarrow> nat list" where
  "utf8_encode v =
     (if v < 0x80 then [v]
      else if v < 0x800 then [0xC0 + v div 0x40, 0x80 + v mod 0x40]
      else if v < 0x10000
      then [0xE0 + v div 0x1000, 0x80 + v div 0x40 mod 0x40, 0x80 + v mod 0x40]
      else [0xF0 + v div 0x40000, 0x80 + v div 0x1000 mod 0x40,
            0x80 + v div 0x40 mod 0x40, 0x80 + v mod 0x40])"

definition hex_upper :: "nat \<Rightarrow> 16 word" where
  "hex_upper d = (if d < 10 then of_nat (0x30 + d) else of_nat (0x41 + d - 10))"

definition percent :: "nat \<Rightarrow> jsstring" where
  "percent b = [0x25, hex_upper (b div 16), hex_upper (b mod 16)]"

text \<open>A lone surrogate makes \<open>encodeURIComponent\<close> throw a \<open>URIError\<close>: \<open>None\<close>.\<close>

fun encodeURIComponent :: "jsstring \<Rightarrow> jsstring option" where
  "encodeURIComponent [] = Some []"
| "encodeURIComponent [c] =
     (if uri_unescaped c then Some [c]
      else if is_lead c \<or> is_trail c then None
      else Some (concat (map percent (utf8_encode (unat c)))))"
| "encodeURIComponent (c # d # ds) =
     (if uri_unescaped c then map_option ((#) c) (encodeURIComponent (d # ds))
      else if is_trail c then None
      else if is_lead c then
        (if is_trail d
         then map_option ((@) (concat (map percent (utf8_encode (surrogate_pair c d)))))
                (encodeURIComponent ds)
         else None)
      else map_option ((@) (concat (map percent (utf8_encode (unat c)))))
             (encodeURIComponent (d # ds)))"

text \<open>
  \<open>URLSearchParams\<close> takes its arguments as scalar value strings (a lone surrogate
  becomes U+FFFD) and serialises them as \<open>application/x-www-form-urlencoded\<close>: a
  space is \<open>+\<close>, letters, digits and \<open>*-._\<close> stay, every other octet of the UTF-8
  form is percent-encoded.
\<close>

fun scalar_values :: "jsstring \<Rightarrow> nat list" where
  "scalar_values [] = []"
| "scalar_values [c] = [if is_lead c \<or> is_trail c then 0xFFFD else unat c]"
| "scalar_values (c # d # ds) =
     (if is_lead c \<and> is_trail d then surrogate_pair c d # scalar_values ds
      else (if is_lead c \<or> is_trail c then 0xFFFD else unat c) # scalar_values (d # ds))"

definition form_octet :: "nat \<Rightarrow> jsstring" where
  "form_octet b =
     (if b = 0x20 then [0x2B]
      else if is_alnum (of_nat b) \<or> b = 0x2A \<or> b = 0x2D \<or> b = 0x2E \<or> b = 0x5F
      then [of_nat b]
      else percent b)"

definition form_encode :: "jsstring \<Rightarrow> jsstring" where
  "form_encode s = concat (map form_octet (concat (map utf8_encode (scalar_values s))))"

fun form_serialize :: "(jsstring \<times> jsstring) list \<Rightarrow> jsstring" where
  "form_serialize [] = []"
| "form_serialize [(n, v)] = form_encode n @ [0x3D] @ form_encode v"
| "form_serialize ((n, v) # ps) =
     form_encode n @ [0x3D] @ form_encode v @ [0x26] @ form_serialize ps"

section \<open>handleQuoteShare\<close>

text \<open>
  \<open>APP_URL\<close> and the paper's metadata are constants of modules outside the sources
  at hand; they are parameters. The host's \<open>actions.openUrl\<close> is \<open>None\<close> when the
  client lacks it; applied to a URL it says whether the promise resolved (\<open>True\<close>) or
  the call threw or rejected (\<open>False\<close>).
\<close>

record constants =
  APP_URL :: jsstring
  author :: jsstring
  title :: jsstring

text \<open>
  The result is the new state and the URLs handed to \<open>openUrl\<close>, in order. Everything
  from \<open>encodeURIComponent\<close> on is inside the \<open>try\<close>.
\<close>

definition handleQuoteShare ::
  "constants \<Rightarrow> (jsstring \<Rightarrow> bool) option \<Rightarrow> quote_state \<Rightarrow> quote_state \<times> jsstring list" where
  "handleQuoteShare k openUrl st =
     (if quoteText st = [] then (st, [])
      else
        (case openUrl of
           None \<Rightarrow>
             (st\<lparr>quoteWarning := Some (js ''Opening links is not supported in this client.'')\<rparr>,
              [])
         | Some opens \<Rightarrow>
             (case encodeURIComponent (quoteText st) of
                None \<Rightarrow>
                  (st\<lparr>quoteWarning :=
                        Some (js ''Something went wrong opening Farcaster. Please try again.'')\<rparr>,
                   [])
              | Some encoded \<Rightarrow>
                  (let shareUrl = APP_URL k @ js ''/share/quote?text='' @ encoded;
                       castText = [0x22] @ quoteText st @ [0x22, 0x20, 0x2014, 0x20]
                                  @ author k @ js '', '' @ title k;
                       composeUrl = js ''https://farcaster.xyz/~/compose?''
                                    @ form_serialize [(js ''text'', castText),
                                                      (js ''embeds[]'', shareUrl)]
                   in if opens composeUrl
                      then (resetQuoteSelection st, [composeUrl])
                      else (st\<lparr>quoteWarning :=
                                 Some (js ''Something went wrong opening Farcaster. Please try again.'')\<rparr>,
                            [composeUrl])))))"

section \<open>Font size preference\<close>









section \<open>Reference annotator\<close>

text \<open>
  \<open>renderContentWithReferences\<close> returns React nodes: a \<open>span\<close> with a key and its
  text, or an anchor with key, \<open>id\<close>, \<open>href\<close> and the three text children of
  \<open>[{label}]\<close> (the class name is a constant and left out). \<open>displayed\<close> is the text a
  node shows.
\<close>

datatype node =
    Span (key: jsstring) (content: jsstring)
  | Anchor (key: jsstring) (id_attr: jsstring) (href: jsstring) (children: "jsstring list")

fun displayed :: "node \<Rightarrow> jsstring" where
  "displayed (Span k t) = t"
| "displayed (Anchor k i h cs) = concat cs"

text \<open>
  The two \<open>useRef\<close> objects that outlive a call. A \<open>Record<number, _>\<close> is an object
  whose property names are the strings of the numbers, so the maps are keyed by
  \<open>`${anchorTarget}`\<close>.
\<close>

record ref_state =
  refOccurrences :: "jsstring \<rightharpoonup> nat"
  firstRefOccurrence :: "jsstring \<rightharpoonup> jsstring"

definition is_digit :: "16 word \<Rightarrow> bool" where
  "is_digit c \<longleftrightarrow> 0x30 \<le> c \<and> c \<le> 0x39"

text \<open>
  The pattern \<open>/\[([0-9]+(?:-[0-9]+)?)\]/\<close> tried at the head of a string; the result is
  capture group 1. Both \<open>[0-9]+\<close> are greedy and what follows a run of digits must be
  \<open>-\<close> or \<open>]\<close>, so backtracking into a shorter run of digits can never succeed: the
  longest runs are the only candidates.
\<close>

definition match_at :: "jsstring \<Rightarrow> jsstring option" where
  "match_at s =
     (case s of
        [] \<Rightarrow> None
      | c # r \<Rightarrow>
          if c \<noteq> 0x5B then None
          else
            (let d1 = takeWhile is_digit r; r1 = dropWhile is_digit r
             in if d1 = [] then None
                else
                  (case r1 of
                     [] \<Rightarrow> None
                   | x # r2 \<Rightarrow>
                       if x = 0x5D then Some d1
                       else if x = 0x2D then
                         (let d2 = takeWhile is_digit r2; r3 = dropWhile is_digit r2
                          in if d2 \<noteq> [] \<and> take 1 r3 = [0x5D]
                             then Some (d1 @ 0x2D # d2)
                             else None)
                       else None)))"

text \<open>
  \<open>referencePattern.exec(text)\<close> with the \<open>g\<close> flag: the leftmost match at or after
  \<open>lastIndex\<close>. The result is \<open>match.index\<close>, \<open>match[1]\<close> and the new \<open>lastIndex\<close>, the
  end of the match. The pattern object is created by each call of
  \<open>renderContentWithReferences\<close>, so its \<open>lastIndex\<close> starts at 0.
\<close>

fun search :: "jsstring \<Rightarrow> nat \<Rightarrow> (nat \<times> jsstring) option" where
  "search [] i = None"
| "search (c # cs) i =
     (case match_at (c # cs) of
        Some label \<Rightarrow> Some (i, label)
      | None \<Rightarrow> search cs (Suc i))"

definition exec :: "jsstring \<Rightarrow> nat \<Rightarrow> (nat \<times> jsstring \<times> nat) option" where
  "exec text lastIndex =
     (if length text < lastIndex then None
      else
        (case search (drop lastIndex text) lastIndex of
           None \<Rightarrow> None
         | Some (index, label) \<Rightarrow> Some (index, label, index + length label + 2)))"

text \<open>The value of a sequence of decimal digits.\<close>

definition digits_value :: "jsstring \<Rightarrow> nat" where
  "digits_value ds = foldl (\<lambda>a c. 10 * a + (unat c - 0x30)) 0 ds"

text \<open>
  \<open>`${Number(ds)}`\<close> for a digit sequence: up to \<open>2^53\<close> the double is the integer
  itself and prints as its decimal numeral; beyond, what the host's rounding and
  number printing give is the parameter \<open>beyond\<close>.
\<close>

definition exact_limit :: int where
  "exact_limit = 0x20000000000000"

definition number_string :: "(nat \<Rightarrow> jsstring) \<Rightarrow> jsstring \<Rightarrow> jsstring" where
  "number_string beyond ds =
     (let v = digits_value ds in if int v \<le> exact_limit then dec v else beyond v)"

text \<open>
  \<open>label.includes("-") ? Number(label.split("-")[0]) : Number(label)\<close>, as the string
  it is printed as; \<open>label.split("-")[0]\<close> is the part before the first hyphen.
\<close>

definition anchorTarget :: "(nat \<Rightarrow> jsstring) \<Rightarrow> jsstring \<Rightarrow> jsstring" where
  "anchorTarget beyond label =
     (if 0x2D \<in> set label
      then number_string beyond (takeWhile (\<lambda>c. c \<noteq> 0x2D) label)
      else number_string beyond label)"

text \<open>The local variables of the loop and the two refs.\<close>

record loop_state =
  nodes :: "node list"
  lastIndex :: nat
  partIndex :: nat
  refs :: ref_state

text \<open>One pass through the body of the \<open>while\<close> loop, for the match \<open>m\<close>.\<close>

definition iteration ::
  "(nat \<Rightarrow> jsstring) \<Rightarrow> jsstring \<Rightarrow> nat \<times> jsstring \<times> nat \<Rightarrow> loop_state \<Rightarrow> loop_state" where
  "iteration beyond text m s =
     (case m of (index, label, newLastIndex) \<Rightarrow>
        (let (nodes1, partIndex1) =
               (if lastIndex s < index
                then (nodes s @ [Span (js ''text-'' @ dec (partIndex s))
                                   (take (index - lastIndex s) (drop (lastIndex s) text))],
                      partIndex s + 1)
                else (nodes s, partIndex s));
             target = anchorTarget beyond label;
             occurrenceCount = (case refOccurrences (refs s) target of
                                  None \<Rightarrow> 0 | Some n \<Rightarrow> n);
             uniqueId = js ''ref-link-'' @ target @ js ''-'' @ dec occurrenceCount;
             unset = (case firstRefOccurrence (refs s) target of
                        None \<Rightarrow> True | Some v \<Rightarrow> v = [])
         in \<lparr>nodes = nodes1 @ [Anchor (js ''ref-'' @ dec partIndex1) uniqueId
                                (js ''#reference-'' @ target)
                                [js ''['', label, js '']'']],
             lastIndex = newLastIndex,
             partIndex = partIndex1 + 1,
             refs = \<lparr>refOccurrences =
                        (refOccurrences (refs s))(target \<mapsto> occurrenceCount + 1),
                      firstRefOccurrence =
                        (if unset then (firstRefOccurrence (refs s))(target \<mapsto> uniqueId)
                         else firstRefOccurrence (refs s))\<rparr>\<rparr>))"

lemma match_at_shape:
  assumes "match_at s = Some l"
  shows "\<exists>rest. s = 0x5B # l @ 0x5D # rest"
proof -
  from assms obtain r where s: "s = 0x5B # r"
    by (auto simp: match_at_def split: list.splits if_splits)
  have td: "takeWhile is_digit r @ dropWhile is_digit r = r" by simp
  from assms s obtain x r2 where r1: "dropWhile is_digit r = x # r2"
    by (auto simp: match_at_def Let_def split: list.splits if_splits)
  show ?thesis
  proof (cases "x = 0x5D")
    case True
    with assms s r1 have "l = takeWhile is_digit r"
      by (auto simp: match_at_def Let_def split: if_splits)
    with td r1 True s show ?thesis by (metis append_Cons)
  next
    case False
    with assms s r1 have x: "x = 0x2D" and l: "l = takeWhile is_digit r @ 0x2D # takeWhile is_digit r2"
      and t: "take 1 (dropWhile is_digit r2) = [0x5D]"
      by (auto simp: match_at_def Let_def split: if_splits)
    from t obtain r4 where "dropWhile is_digit r2 = 0x5D # r4"
      by (cases "dropWhile is_digit r2") auto
    then have "r2 = takeWhile is_digit r2 @ 0x5D # r4"
      by (metis takeWhile_dropWhile_id)
    with td r1 x l s show ?thesis
      by (metis append_Cons append_assoc)
  qed
qed

lemma search_sound:
  "search s i = Some (idx, l) \<Longrightarrow>
     i \<le> idx \<and> idx < i + length s \<and> match_at (drop (idx - i) s) = Some l \<and>
     (\<forall>k < idx - i. match_at (drop k s) = None)"
proof (induction s arbitrary: i)
  case Nil
  then show ?case by simp
next
  case (Cons c cs)
  show ?case
  proof (cases "match_at (c # cs)")
    case (Some l')
    with Cons.prems show ?thesis by simp
  next
    case None
    with Cons.prems have s: "search cs (Suc i) = Some (idx, l)" by simp
    from Cons.IH [OF s] have ih: "Suc i \<le> idx" "idx < Suc i + length cs"
      "match_at (drop (idx - Suc i) cs) = Some l"
      "\<forall>k < idx - Suc i. match_at (drop k cs) = None" by auto
    from ih(1) have e: "idx - i = Suc (idx - Suc i)" by simp
    have "\<forall>k < idx - i. match_at (drop k (c # cs)) = None"
    proof (intro allI impI)
      fix k assume k: "k < idx - i"
      show "match_at (drop k (c # cs)) = None"
      proof (cases k)
        case 0
        then show ?thesis using None by simp
      next
        case (Suc k')
        with k e ih(4) show ?thesis by simp
      qed
    qed
    with ih e show ?thesis by simp
  qed
qed

lemma search_None:
  "search s i = None \<Longrightarrow> k < length s \<Longrightarrow> match_at (drop k s) = None"
proof (induction s arbitrary: i k)
  case Nil
  then show ?case by simp
next
  case (Cons c cs)
  then show ?case by (cases k) (auto split: option.splits)
qed

lemma exec_sound:
  assumes "exec text i = Some (idx, l, j)"
  shows "i \<le> idx" and "j = idx + length l + 2" and "j \<le> length text"
    and "match_at (drop idx text) = Some l"
    and "\<forall>k. i \<le> k \<and> k < idx \<longrightarrow> match_at (drop k text) = None"
    and "take (length l + 2) (drop idx text) = 0x5B # l @ [0x5D]"
proof -
  from assms have le: "i \<le> length text" and s: "search (drop i text) i = Some (idx, l)"
    and j: "j = idx + length l + 2"
    by (auto simp: exec_def split: if_splits option.splits)
  from search_sound [OF s] have a: "i \<le> idx" "idx < i + length (drop i text)"
    "match_at (drop (idx - i) (drop i text)) = Some l"
    "\<forall>k < idx - i. match_at (drop k (drop i text)) = None" by auto
  from a(1) a(3) have m: "match_at (drop idx text) = Some l" by simp
  from match_at_shape [OF m] obtain rest where d: "drop idx text = 0x5B # l @ 0x5D # rest" by blast
  then have "length (drop idx text) = length l + 2 + length rest" by simp
  then have len: "idx + length l + 2 \<le> length text" by simp
  have n: "\<forall>k. i \<le> k \<and> k < idx \<longrightarrow> match_at (drop k text) = None"
  proof (intro allI impI)
    fix k assume k: "i \<le> k \<and> k < idx"
    then have "k - i < idx - i" by arith
    with a(4) have "match_at (drop (k - i) (drop i text)) = None" by blast
    with k show "match_at (drop k text) = None" by simp
  qed
  show "i \<le> idx" by fact
  show "j = idx + length l + 2" by fact
  show "j \<le> length text" using j len by simp
  show "match_at (drop idx text) = Some l" by fact
  show "\<forall>k. i \<le> k \<and> k < idx \<longrightarrow> match_at (drop k text) = None" by fact
  show "take (length l + 2) (drop idx text) = 0x5B # l @ [0x5D]" using d by simp
qed

lemma lastIndex_iteration:
  "lastIndex (iteration beyond text (idx, l, j) s) = j"
  by (simp add: iteration_def Let_def split_def)

function render_loop :: "(nat \<Rightarrow> jsstring) \<Rightarrow> jsstring \<Rightarrow> loop_state \<Rightarrow> loop_state" where
  "render_loop beyond text s =
     (case exec text (lastIndex s) of
        None \<Rightarrow> s
      | Some m \<Rightarrow> render_loop beyond text (iteration beyond text m s))"
  by pat_completeness auto
termination
proof (relation "measure (\<lambda>(beyond, text, s). Suc (length text) - lastIndex s)", goal_cases)
  case 1
  show ?case by simp
next
  case (2 beyond tx s m)
  obtain idx l j where m: "m = (idx, l, j)" by (cases m) auto
  from 2 m exec_sound(1-3) [of tx "lastIndex s" idx l j]
  show ?case by (simp add: lastIndex_iteration)
qed

declare render_loop.simps [simp del]

text \<open>The function returns the nodes; the refs it leaves behind are returned with them.\<close>

definition renderContentWithReferences ::
  "(nat \<Rightarrow> jsstring) \<Rightarrow> jsstring \<Rightarrow> ref_state \<Rightarrow> node list \<times> ref_state" where
  "renderContentWithReferences beyond text rs =
     (let s = render_loop beyond text \<lparr>nodes = [], lastIndex = 0, partIndex = 0, refs = rs\<rparr>
      in (if lastIndex s < length text
          then nodes s @ [Span (js ''text-'' @ dec (partIndex s)) (drop (lastIndex s) text)]
          else nodes s,
          refs s))"

section \<open>The vocabulary of the claims about the annotator\<close>

text \<open>
  A non-empty sequence of decimal digits, and a citation marker as the pattern
  describes it: \<open>[n]\<close> or \<open>[m-k]\<close>. These follow the wording of the pattern, not the
  matcher above.
\<close>

definition digits :: "jsstring \<Rightarrow> bool" where
  "digits ds \<longleftrightarrow> ds \<noteq> [] \<and> list_all is_digit ds"

definition marker :: "jsstring \<Rightarrow> bool" where
  "marker m \<longleftrightarrow>
     (\<exists>d. digits d \<and> m = 0x5B # d @ [0x5D]) \<or>
     (\<exists>d e. digits d \<and> digits e \<and> m = 0x5B # d @ 0x2D # e @ [0x5D])"

definition contains_marker :: "jsstring \<Rightarrow> bool" where
  "contains_marker tx \<longleftrightarrow> (\<exists>pre m post. tx = pre @ m @ post \<and> marker m)"

text \<open>A digit sequence without its leading zeros (\<open>0\<close> when nothing else is left).\<close>

definition strip_zeros :: "jsstring \<Rightarrow> jsstring" where
  "strip_zeros ds =
     (if dropWhile (\<lambda>c. c = 0x30) ds = [] then [0x30] else dropWhile (\<lambda>c. c = 0x30) ds)"

text \<open>A node with the \<open>id\<close> of an anchor blanked.\<close>

fun erase_id :: "node \<Rightarrow> node" where
  "erase_id (Span k t) = Span k t"
| "erase_id (Anchor k i h cs) = Anchor k [] h cs"

section \<open>Auxiliary definitions\<close>

text \<open>The state in which the loop starts.\<close>

definition initial_loop :: "ref_state \<Rightarrow> loop_state" where
  "initial_loop rs = \<lparr>nodes = [], lastIndex = 0, partIndex = 0, refs = rs\<rparr>"

text \<open>What one pass appends: a span for the gap, if there is one, and the anchor.\<close>

definition gap_span :: "jsstring \<Rightarrow> loop_state \<Rightarrow> nat \<Rightarrow> node list" where
  "gap_span tx s idx =
     (if lastIndex s < idx
      then [Span (js ''text-'' @ dec (partIndex s)) (take (idx - lastIndex s) (drop (lastIndex s) tx))]
      else [])"

definition anchor_of :: "(nat \<Rightarrow> jsstring) \<Rightarrow> loop_state \<Rightarrow> nat \<Rightarrow> jsstring \<Rightarrow> node" where
  "anchor_of b s idx l =
     Anchor (js ''ref-'' @ dec (if lastIndex s < idx then partIndex s + 1 else partIndex s))
       (js ''ref-link-'' @ anchorTarget b l @ js ''-''
          @ dec (case refOccurrences (refs s) (anchorTarget b l) of None \<Rightarrow> 0 | Some n \<Rightarrow> n))
       (js ''#reference-'' @ anchorTarget b l)
       [js ''['', l, js '']'']"

text \<open>The two warnings of \<open>handleQuoteShare\<close>.\<close>

definition unsupported_warning :: jsstring where
  "unsupported_warning = js ''Opening links is not supported in this client.''"

definition failed_warning :: jsstring where
  "failed_warning = js ''Something went wrong opening Farcaster. Please try again.''"

section \<open>Sample inputs\<close>

text \<open>
  Concrete inputs on which the theorems below are instantiated: empty refs, a quote
  menu that is open on a selected sentence, the constants of the application, a
  selection inside the content with a given text, and a page that is not scrolled.
\<close>

definition no_refs :: ref_state where
  "no_refs = \<lparr>refOccurrences = Map.empty, firstRefOccurrence = Map.empty\<rparr>"

definition demo_state :: quote_state where
  "demo_state = \<lparr>showQuoteMenu = True,
                  quoteText = js ''A purely peer-to-peer version of electronic cash'',
                  quoteWarning = None, quoteMenuPosition = Some (12, 40)\<rparr>"

definition demo_constants :: constants where
  "demo_constants = \<lparr>APP_URL = js ''https://example.org'', author = js ''Satoshi Nakamoto'',
                      title = js ''Bitcoin''\<rparr>"

definition demo_selection :: "jsstring \<Rightarrow> selection" where
  "demo_selection t =
     \<lparr>isCollapsed = False, toString = t, outsideContent = False,
      boundingClientRect = \<lparr>top_r = 100, left_r = 20, width_r = 80, height_r = 16\<rparr>,
      clientRects = []\<rparr>"

definition demo_scroll :: scroll where
  "demo_scroll = \<lparr>scrollY = 0, scrollTop = 0, scrollX = 0, scrollLeft = 0\<rparr>"

text \<open>
  A stand-in for the \<open>beyond\<close> parameter where no number exceeds \<open>2^53\<close> and the
  parameter is never consulted.
\<close>

definition unused_beyond :: "nat \<Rightarrow> jsstring" where
  "unused_beyond v = []"

text \<open>Refs that differ from \<open>no_refs\<close> in the first-occurrence table only.\<close>

definition seen_refs :: ref_state where
  "seen_refs = \<lparr>refOccurrences = Map.empty,
                 firstRefOccurrence = [js ''1'' \<mapsto> js ''ref-link-1-0'']\<rparr>"



section \<open>Properties of sanitizeQuote\<close>

lemma decode_undefined: "decodeURIComponent (js ''undefined'') = Some (js ''undefined'')"
  by code_simp

lemma replace_ws_all_ws:
  assumes "\<forall>c\<in>set s. is_ws c"
  shows "replace_ws s = (if s = [] then [] else [0x20])"
proof (cases s)
  case Nil
  then show ?thesis by simp
next
  case (Cons a list)
  with assms have e: "dropWhile is_ws list = []" and a: "is_ws a"
    by (simp_all add: dropWhile_eq_Nil_conv)
  have "replace_ws (a # list) = 0x20 # replace_ws (dropWhile is_ws list)"
    using a by simp
  also have "\<dots> = [0x20]"
    by (simp only: e replace_ws.simps)
  finally show ?thesis using Cons by simp
qed

lemma is_ws_space: "is_ws 0x20"
  by (simp add: is_ws_def)

lemma normalize_all_ws:
  "\<forall>c\<in>set s. is_ws c \<Longrightarrow> trim (replace_ws s) = []"
  by (simp add: replace_ws_all_ws trim_def is_ws_space)

lemma sanitize_body:
  "(let normalized = trim (replace_ws d)
    in if normalized = [] then Inr []
       else Inr (if MAX_QUOTE_LENGTH < length normalized
                 then take MAX_QUOTE_LENGTH normalized
                 else normalized)) = (Inr (take 280 (trim (replace_ws d))) :: js_error + jsstring)"
  by (simp add: Let_def MAX_QUOTE_LENGTH_def)

lemma page_decoded:
  "\<exists>d. (case decodeURIComponent (ToString (first_value raw)) of
          Some d \<Rightarrow> Some d | None \<Rightarrow> first_value raw) = Some d"
proof (cases "first_value raw")
  case None
  then show ?thesis using decode_undefined by simp
next
  case (Some a)
  then show ?thesis by (cases "decodeURIComponent a") simp_all
qed

lemma page_total:
  "\<exists>s. sanitizeQuote_page raw = Inr s \<and> length s \<le> 280"
proof (cases "falsy_param raw")
  case True
  then show ?thesis by (simp add: sanitizeQuote_page_def)
next
  case False
  from page_decoded obtain d where
    d: "(case decodeURIComponent (ToString (first_value raw)) of
           Some d \<Rightarrow> Some d | None \<Rightarrow> first_value raw) = Some d"
    by blast
  have "sanitizeQuote_page raw = Inr (take 280 (trim (replace_ws d)))"
    using False d sanitize_body [of d] unfolding sanitizeQuote_page_def
    by (simp add: Let_def)
  then show ?thesis by simp
qed

lemma route_value:
  "v \<noteq> [] \<Longrightarrow>
     sanitizeQuote_route (Some v) =
       Inr (take 280 (trim (replace_ws (case decodeURIComponent v of Some d \<Rightarrow> d | None \<Rightarrow> v))))"
  using sanitize_body [of "case decodeURIComponent v of Some d \<Rightarrow> d | None \<Rightarrow> v"]
  unfolding sanitizeQuote_route_def by (simp add: Let_def)

lemma page_value:
  assumes "first_value raw = Some v" and "\<not> falsy_param raw"
  shows "sanitizeQuote_page raw =
           Inr (take 280 (trim (replace_ws (case decodeURIComponent v of Some d \<Rightarrow> d | None \<Rightarrow> v))))"
proof (cases "decodeURIComponent v")
  case None
  then show ?thesis
    using assms sanitize_body [of v] unfolding sanitizeQuote_page_def by (simp add: Let_def)
next
  case (Some d)
  then show ?thesis
    using assms sanitize_body [of d] unfolding sanitizeQuote_page_def by (simp add: Let_def)
qed

lemma route_total:
  "\<exists>s. sanitizeQuote_route v = Inr s \<and> length s \<le> 280"
proof (cases v)
  case None
  then show ?thesis by (simp add: sanitizeQuote_route_def)
next
  case (Some x)
  show ?thesis
  proof (cases "x = []")
    case True
    with Some show ?thesis by (simp add: sanitizeQuote_route_def)
  next
    case False
    with Some route_value [of x] show ?thesis by simp
  qed
qed

lemma page_all_ws:
  assumes "first_value raw = Some y"
    and "\<forall>c\<in>set (case decodeURIComponent y of Some d \<Rightarrow> d | None \<Rightarrow> y). is_ws c"
  shows "sanitizeQuote_page raw = Inr []"
proof (cases "falsy_param raw")
  case True
  then show ?thesis by (simp add: sanitizeQuote_page_def)
next
  case False
  from page_value [OF assms(1) False] normalize_all_ws [OF assms(2)]
  show ?thesis by simp
qed

lemma route_all_ws:
  assumes "\<forall>c\<in>set (case decodeURIComponent y of Some d \<Rightarrow> d | None \<Rightarrow> y). is_ws c"
  shows "sanitizeQuote_route (Some y) = Inr []"
proof (cases "y = []")
  case True
  then show ?thesis by (simp add: sanitizeQuote_route_def)
next
  case False
  from route_value [OF False] normalize_all_ws [OF assms] show ?thesis by simp
qed

lemma decode_Nil: "decodeURIComponent [] = Some []"
  by simp

text \<open>
  C4. \<open>sanitizeQuote\<close> never throws and returns a string of at most 280 code units, for
  an absent parameter, a string and an array of strings alike (and so does the route's
  function on its \<open>string | null\<close>). The result is empty for an absent parameter and
  whenever the decoded value is white space only. When \<open>decodeURIComponent\<close> throws on
  the value, the result is computed from the raw value instead.
\<close>

theorem sanitizeQuote_total_bounded:
  "(\<exists>s. sanitizeQuote_page raw = Inr s \<and> length s \<le> 280) \<and>
   (\<exists>s. sanitizeQuote_route v = Inr s \<and> length s \<le> 280) \<and>
   sanitizeQuote_page Absent = Inr [] \<and>
   sanitizeQuote_route None = Inr [] \<and>
   (first_value raw1 = Some x \<and> decodeURIComponent x = None \<longrightarrow>
      sanitizeQuote_page raw1 = Inr (take 280 (trim (replace_ws x))) \<and>
      sanitizeQuote_route (Some x) = Inr (take 280 (trim (replace_ws x)))) \<and>
   (first_value raw2 = Some y \<and>
    (\<forall>c\<in>set (case decodeURIComponent y of Some d \<Rightarrow> d | None \<Rightarrow> y). is_ws c) \<longrightarrow>
      sanitizeQuote_page raw2 = Inr [] \<and> sanitizeQuote_route (Some y) = Inr [])"
proof (intro conjI impI)
  show "\<exists>s. sanitizeQuote_page raw = Inr s \<and> length s \<le> 280" by (rule page_total)
  show "\<exists>s. sanitizeQuote_route v = Inr s \<and> length s \<le> 280" by (rule route_total)
  show "sanitizeQuote_page Absent = Inr []" by (simp add: sanitizeQuote_page_def)
  show "sanitizeQuote_route None = Inr []" by (simp add: sanitizeQuote_route_def)
next
  assume a: "first_value raw1 = Some x \<and> decodeURIComponent x = None"
  then have ne: "x \<noteq> []" using decode_Nil by auto
  with a have nf: "\<not> falsy_param raw1" by (cases raw1) auto
  from a page_value [OF _ nf, of x]
  show "sanitizeQuote_page raw1 = Inr (take 280 (trim (replace_ws x)))" by simp
  from a route_value [OF ne]
  show "sanitizeQuote_route (Some x) = Inr (take 280 (trim (replace_ws x)))" by simp
next
  assume a: "first_value raw2 = Some y \<and>
    (\<forall>c\<in>set (case decodeURIComponent y of Some d \<Rightarrow> d | None \<Rightarrow> y). is_ws c)"
  then show "sanitizeQuote_page raw2 = Inr []" using page_all_ws by blast
  from a show "sanitizeQuote_route (Some y) = Inr []" using route_all_ws by blast
qed

theorem sanitizeQuote_total_bounded_witness:
  "decodeURIComponent (js ''%E0%A4%A'') = None \<and>
   sanitizeQuote_page (Multiple [js ''%E0%A4%A'', js ''b'']) = Inr (js ''%E0%A4%A'') \<and>
   decodeURIComponent (js ''%20%0A%09'') = Some [0x20, 0x0A, 0x09] \<and>
   sanitizeQuote_page (Single (js ''%20%0A%09'')) = Inr [] \<and>
   (\<exists>s. sanitizeQuote_page (Multiple []) = Inr s \<and> length s \<le> 280)"
proof -
  have h1: "first_value (Multiple [js ''%E0%A4%A'', js ''b'']) = Some (js ''%E0%A4%A'') \<and>
            decodeURIComponent (js ''%E0%A4%A'') = None"
    by code_simp
  have h2: "first_value (Single (js ''%20%0A%09'')) = Some (js ''%20%0A%09'') \<and>
            (\<forall>c\<in>set (case decodeURIComponent (js ''%20%0A%09'') of
               Some d \<Rightarrow> d | None \<Rightarrow> js ''%20%0A%09''). is_ws c)"
    by code_simp
  have e: "take 280 (trim (replace_ws (js ''%E0%A4%A''))) = js ''%E0%A4%A''"
    by code_simp
  have d: "decodeURIComponent (js ''%20%0A%09'') = Some [0x20, 0x0A, 0x09]"
    by code_simp
  from sanitizeQuote_total_bounded
         [of "Multiple []" None "Multiple [js ''%E0%A4%A'', js ''b'']" "js ''%E0%A4%A''"
             "Single (js ''%20%0A%09'')" "js ''%20%0A%09''"]
       h1 h2 e d
  show ?thesis by simp
qed

text \<open>
  C8. On a single string the page's \<open>sanitizeQuote\<close> and the route's \<open>sanitizeQuote\<close>
  return the same result.
\<close>

theorem sanitizeQuote_page_route_equal:
  "sanitizeQuote_page (Single s) = sanitizeQuote_route (Some s)"
proof (cases "decodeURIComponent s")
  case None
  then show ?thesis
    by (simp add: sanitizeQuote_page_def sanitizeQuote_route_def Let_def)
next
  case (Some d)
  then show ?thesis
    by (simp add: sanitizeQuote_page_def sanitizeQuote_route_def Let_def)
qed

section \<open>Properties of the quote selection\<close>

lemma trunc_msg:
  "js ''Quote truncated to '' @ dec MAX_QUOTE_LENGTH @ js '' characters.''
     = js ''Quote truncated to 280 characters.''"
  by code_simp

lemma handleSelection_captured:
  assumes "\<not> isCollapsed s" and "trim (replace_ws (toString s)) = t" and "t \<noteq> []"
    and "\<not> outsideContent s"
  shows "quoteText (handleSelection w (Some s) st) =
           (if 280 < length t then take 280 t else t) \<and>
         quoteWarning (handleSelection w (Some s) st) =
           (if 280 < length t then Some (js ''Quote truncated to 280 characters.'')
            else if length t < 16
            then Some (js ''Try selecting a little more text for better context.'')
            else None)"
proof -
  consider "280 < length t" | "length t < 16" | "16 \<le> length t" "length t \<le> 280"
    by linarith
  then show ?thesis
  proof cases
    case 1
    then show ?thesis using assms trunc_msg
      by (simp add: handleSelection_def Let_def MAX_QUOTE_LENGTH_def)
  next
    case 2
    then show ?thesis using assms
      by (simp add: handleSelection_def Let_def MAX_QUOTE_LENGTH_def MIN_QUOTE_LENGTH_def)
  next
    case 3
    then show ?thesis using assms
      by (simp add: handleSelection_def Let_def MAX_QUOTE_LENGTH_def MIN_QUOTE_LENGTH_def)
  qed
qed

text \<open>
  C1. A selection that \<open>handleSelection\<close> captures (not collapsed, not empty after
  normalisation, not outside the content) is normalised first: runs of white space
  become one space and the ends are trimmed. Longer than 280, the text is cut to its
  first 280 code units and the truncation warning is set; shorter than 16, it is kept
  and the minimum-length warning is set; otherwise it is kept and no warning is set.
\<close>

theorem handleSelection_length_bounds:
  assumes "\<not> isCollapsed s" and "trim (replace_ws (toString s)) \<noteq> []"
    and "\<not> outsideContent s"
  shows "quoteText (handleSelection w (Some s) st) =
           (if 280 < length (trim (replace_ws (toString s)))
            then take 280 (trim (replace_ws (toString s)))
            else trim (replace_ws (toString s))) \<and>
         quoteWarning (handleSelection w (Some s) st) =
           (if 280 < length (trim (replace_ws (toString s)))
            then Some (js ''Quote truncated to 280 characters.'')
            else if length (trim (replace_ws (toString s))) < 16
            then Some (js ''Try selecting a little more text for better context.'')
            else None) \<and>
         length (quoteText (handleSelection w (Some s) st)) =
           min 280 (length (trim (replace_ws (toString s))))"
  using handleSelection_captured [OF assms(1) refl assms(2) assms(3), of w st]
  by (simp add: min_def)

lemma demo_selection_simps:
  "isCollapsed (demo_selection t) = False" "toString (demo_selection t) = t"
  "outsideContent (demo_selection t) = False"
  by (simp_all add: demo_selection_def)

lemma normalize_short: "trim (replace_ws (js ''  Bitcoin:   A  '')) = js ''Bitcoin: A''"
  by code_simp

lemma normalize_mid:
  "trim (replace_ws (js ''A purely peer-to-peer  version'')) = js ''A purely peer-to-peer version''"
  by code_simp

lemma normalize_long: "trim (replace_ws (replicate 300 0x61)) = replicate 300 0x61"
  by code_simp

theorem handleSelection_length_bounds_witness:
  "quoteText (handleSelection demo_scroll (Some (demo_selection (js ''  Bitcoin:   A  ''))) demo_state)
     = js ''Bitcoin: A'' \<and>
   quoteWarning (handleSelection demo_scroll (Some (demo_selection (js ''  Bitcoin:   A  ''))) demo_state)
     = Some (js ''Try selecting a little more text for better context.'') \<and>
   quoteText (handleSelection demo_scroll
                (Some (demo_selection (js ''A purely peer-to-peer  version''))) demo_state)
     = js ''A purely peer-to-peer version'' \<and>
   quoteWarning (handleSelection demo_scroll
                (Some (demo_selection (js ''A purely peer-to-peer  version''))) demo_state)
     = None \<and>
   quoteText (handleSelection demo_scroll (Some (demo_selection (replicate 300 0x61))) demo_state)
     = replicate 280 0x61 \<and>
   quoteWarning (handleSelection demo_scroll (Some (demo_selection (replicate 300 0x61))) demo_state)
     = Some (js ''Quote truncated to 280 characters.'')"
proof -
  have s: "trim (replace_ws (toString (demo_selection (js ''  Bitcoin:   A  '')))) \<noteq> []"
    unfolding demo_selection_simps normalize_short by (simp add: js_def)
  have m: "trim (replace_ws (toString (demo_selection (js ''A purely peer-to-peer  version'')))) \<noteq> []"
    unfolding demo_selection_simps normalize_mid by (simp add: js_def)
  have l: "trim (replace_ws (toString (demo_selection (replicate 300 0x61)))) \<noteq> []"
    unfolding demo_selection_simps normalize_long by simp
  have ls: "length (js ''Bitcoin: A'') = 10" "length (js ''A purely peer-to-peer version'') = 29"
    by (simp_all add: js_def)
  from handleSelection_length_bounds [OF _ s, of demo_scroll demo_state]
       handleSelection_length_bounds [OF _ m, of demo_scroll demo_state]
       handleSelection_length_bounds [OF _ l, of demo_scroll demo_state]
  show ?thesis
    by (simp add: demo_selection_simps normalize_short normalize_mid normalize_long ls)
qed

section \<open>Properties of handleQuoteShare\<close>

lemma handleQuoteShare_cases:
  "handleQuoteShare k openUrl st = (st, []) \<and> quoteText st = []
   \<or> handleQuoteShare k openUrl st = (st\<lparr>quoteWarning := Some unsupported_warning\<rparr>, []) \<and>
       quoteText st \<noteq> [] \<and> openUrl = None
   \<or> handleQuoteShare k openUrl st = (st\<lparr>quoteWarning := Some failed_warning\<rparr>, []) \<and>
       quoteText st \<noteq> [] \<and> openUrl \<noteq> None \<and> encodeURIComponent (quoteText st) = None
   \<or> (\<exists>opens url. openUrl = Some opens \<and> \<not> opens url \<and> quoteText st \<noteq> [] \<and>
         encodeURIComponent (quoteText st) \<noteq> None \<and>
         handleQuoteShare k openUrl st = (st\<lparr>quoteWarning := Some failed_warning\<rparr>, [url]))
   \<or> (\<exists>opens url. openUrl = Some opens \<and> opens url \<and> quoteText st \<noteq> [] \<and>
         encodeURIComponent (quoteText st) \<noteq> None \<and>
         handleQuoteShare k openUrl st = (resetQuoteSelection st, [url]))"
  by (auto simp: handleQuoteShare_def Let_def unsupported_warning_def failed_warning_def
           split: option.splits)

text \<open>
  C7. When the client has no \<open>openUrl\<close>, when \<open>openUrl\<close> throws, and when building the
  URL throws, \<open>handleQuoteShare\<close> sets a warning and leaves the quote text, the menu
  and its position as they were. \<open>openUrl\<close> is called at most once. The quote
  selection changes only by the reset that follows a successful \<open>openUrl\<close>.
\<close>

theorem handleQuoteShare_failure_paths:
  "(quoteText st \<noteq> [] \<and> openUrl = None \<longrightarrow>
      handleQuoteShare k openUrl st =
        (st\<lparr>quoteWarning := Some (js ''Opening links is not supported in this client.'')\<rparr>, [])) \<and>
   (openUrl = Some opens \<and> snd (handleQuoteShare k openUrl st) = [url] \<and> \<not> opens url \<longrightarrow>
      fst (handleQuoteShare k openUrl st) =
        st\<lparr>quoteWarning :=
             Some (js ''Something went wrong opening Farcaster. Please try again.'')\<rparr>) \<and>
   (quoteText st \<noteq> [] \<and> openUrl = Some opens \<and> encodeURIComponent (quoteText st) = None \<longrightarrow>
      handleQuoteShare k openUrl st =
        (st\<lparr>quoteWarning :=
              Some (js ''Something went wrong opening Farcaster. Please try again.'')\<rparr>, [])) \<and>
   length (snd (handleQuoteShare k openUrl st)) \<le> 1 \<and>
   (quoteText (fst (handleQuoteShare k openUrl st)) \<noteq> quoteText st
      \<or> showQuoteMenu (fst (handleQuoteShare k openUrl st)) \<noteq> showQuoteMenu st
      \<or> quoteMenuPosition (fst (handleQuoteShare k openUrl st)) \<noteq> quoteMenuPosition st \<longrightarrow>
      (\<exists>f u. openUrl = Some f \<and> f u \<and>
         handleQuoteShare k openUrl st = (resetQuoteSelection st, [u])))"
  using handleQuoteShare_cases [of k openUrl st]
  unfolding unsupported_warning_def failed_warning_def
  by (elim disjE conjE exE) auto

lemma demo_state_simps:
  "quoteText demo_state = js ''A purely peer-to-peer version of electronic cash''"
  "showQuoteMenu demo_state = True"
  by (simp_all add: demo_state_def)

lemma demo_encodes:
  "encodeURIComponent (js ''A purely peer-to-peer version of electronic cash'') =
     Some (js ''A%20purely%20peer-to-peer%20version%20of%20electronic%20cash'')"
  by code_simp

lemma demo_nonempty: "quoteText demo_state \<noteq> []"
  by (simp add: demo_state_def js_def)

lemma lone_surrogate: "encodeURIComponent [0x61, 0xD83D] = None"
  by code_simp

theorem handleQuoteShare_failure_paths_witness:
  "handleQuoteShare demo_constants None demo_state =
     (demo_state\<lparr>quoteWarning := Some (js ''Opening links is not supported in this client.'')\<rparr>, []) \<and>
   fst (handleQuoteShare demo_constants (Some (\<lambda>u. False)) demo_state) =
     demo_state\<lparr>quoteWarning :=
       Some (js ''Something went wrong opening Farcaster. Please try again.'')\<rparr> \<and>
   length (snd (handleQuoteShare demo_constants (Some (\<lambda>u. False)) demo_state)) = 1 \<and>
   handleQuoteShare demo_constants (Some (\<lambda>u. True)) (demo_state\<lparr>quoteText := [0x61, 0xD83D]\<rparr>) =
     (demo_state\<lparr>quoteText := [0x61, 0xD83D], quoteWarning :=
       Some (js ''Something went wrong opening Farcaster. Please try again.'')\<rparr>, []) \<and>
   fst (handleQuoteShare demo_constants (Some (\<lambda>u. True)) demo_state) =
     resetQuoteSelection demo_state"
proof -
  obtain u where u: "snd (handleQuoteShare demo_constants (Some (\<lambda>u. False)) demo_state) = [u]"
    using demo_nonempty demo_encodes
    by (simp add: handleQuoteShare_def Let_def demo_state_simps)
  have ok: "quoteText (fst (handleQuoteShare demo_constants (Some (\<lambda>u. True)) demo_state))
              \<noteq> quoteText demo_state"
    using demo_nonempty demo_encodes
    by (simp add: handleQuoteShare_def Let_def demo_state_simps resetQuoteSelection_def)
  have c1: "handleQuoteShare demo_constants None demo_state =
     (demo_state\<lparr>quoteWarning := Some (js ''Opening links is not supported in this client.'')\<rparr>, [])"
    using handleQuoteShare_failure_paths
            [where st = demo_state and openUrl = None and k = demo_constants]
          demo_nonempty
    by blast
  have c2: "fst (handleQuoteShare demo_constants (Some (\<lambda>u. False)) demo_state) =
     demo_state\<lparr>quoteWarning :=
       Some (js ''Something went wrong opening Farcaster. Please try again.'')\<rparr>"
    using handleQuoteShare_failure_paths
            [where st = demo_state and openUrl = "Some (\<lambda>u. False)" and opens = "\<lambda>u. False"
               and k = demo_constants and url = u]
          u
    by blast
  have c3: "length (snd (handleQuoteShare demo_constants (Some (\<lambda>u. False)) demo_state)) = 1"
    using u by simp
  have e: "quoteText (demo_state\<lparr>quoteText := [0x61, 0xD83D]\<rparr>) \<noteq> [] \<and>
           encodeURIComponent (quoteText (demo_state\<lparr>quoteText := [0x61, 0xD83D]\<rparr>)) = None"
    using lone_surrogate by (simp del: encodeURIComponent.simps)
  have c4: "handleQuoteShare demo_constants (Some (\<lambda>u. True))
              (demo_state\<lparr>quoteText := [0x61, 0xD83D]\<rparr>) =
     (demo_state\<lparr>quoteText := [0x61, 0xD83D], quoteWarning :=
       Some (js ''Something went wrong opening Farcaster. Please try again.'')\<rparr>, [])"
    using handleQuoteShare_failure_paths
            [where st = "demo_state\<lparr>quoteText := [0x61, 0xD83D]\<rparr>"
               and openUrl = "Some (\<lambda>u. True)" and opens = "\<lambda>u. True"
               and k = demo_constants]
          e
    by blast
  have "\<exists>f v. Some (\<lambda>u. True) = Some f \<and> f v \<and>
          handleQuoteShare demo_constants (Some (\<lambda>u. True)) demo_state =
            (resetQuoteSelection demo_state, [v])"
    using handleQuoteShare_failure_paths
            [where st = demo_state and openUrl = "Some (\<lambda>u. True)" and k = demo_constants]
          ok
    by blast
  then have c5: "fst (handleQuoteShare demo_constants (Some (\<lambda>u. True)) demo_state) =
     resetQuoteSelection demo_state"
    by auto
  from c1 c2 c3 c4 c5 show ?thesis by blast
qed

section \<open>Properties of the font size preference\<close>







section \<open>Properties of the reference annotator\<close>

lemma js_brackets: "js ''['' = [0x5B]" "js '']'' = [0x5D]"
  by (simp_all add: js_def)

lemma render_loop_None:
  "exec tx (lastIndex s) = None \<Longrightarrow> render_loop b tx s = s"
  by (subst render_loop.simps) simp

lemma render_loop_Some:
  "exec tx (lastIndex s) = Some m \<Longrightarrow>
     render_loop b tx s = render_loop b tx (iteration b tx m s)"
  by (subst render_loop.simps) simp

lemma nodes_iteration:
  "nodes (iteration b tx (idx, l, j) s) = nodes s @ gap_span tx s idx @ [anchor_of b s idx l]"
  by (simp add: iteration_def Let_def gap_span_def anchor_of_def)

lemma partIndex_iteration:
  "partIndex (iteration b tx (idx, l, j) s) =
     (if lastIndex s < idx then partIndex s + 2 else partIndex s + 1)"
  by (simp add: iteration_def Let_def)

lemma refOccurrences_iteration:
  "refOccurrences (refs (iteration b tx (idx, l, j) s)) =
     (refOccurrences (refs s))
       (anchorTarget b l \<mapsto>
          (case refOccurrences (refs s) (anchorTarget b l) of None \<Rightarrow> 0 | Some n \<Rightarrow> n) + 1)"
  by (simp add: iteration_def Let_def)

lemma displayed_gap_span:
  "lastIndex s \<le> idx \<Longrightarrow>
     concat (map displayed (gap_span tx s idx)) = take (idx - lastIndex s) (drop (lastIndex s) tx)"
  by (simp add: gap_span_def)

lemma displayed_anchor_of: "displayed (anchor_of b s idx l) = 0x5B # l @ [0x5D]"
  by (simp add: anchor_of_def js_brackets)

lemma take_split: "i \<le> k \<Longrightarrow> take k xs = take i xs @ take (k - i) (drop i xs)"
  by (metis le_add_diff_inverse take_add)

lemma drop_take_split:
  "i \<le> k \<Longrightarrow> k \<le> n \<Longrightarrow>
     take (n - i) (drop i xs) = take (k - i) (drop i xs) @ take (n - k) (drop k xs)"
proof -
  assume a: "i \<le> k" "k \<le> n"
  have "take (n - i) (drop i xs) = take ((k - i) + (n - k)) (drop i xs)" using a by simp
  also have "\<dots> = take (k - i) (drop i xs) @ take (n - k) (drop (k - i) (drop i xs))"
    by (rule take_add)
  finally show ?thesis using a by simp
qed

text \<open>What one pass shows is the stretch of the text it has moved over.\<close>

lemma displayed_iteration:
  assumes "exec tx (lastIndex s) = Some (idx, l, j)"
  shows "concat (map displayed (gap_span tx s idx @ [anchor_of b s idx l])) =
           take (j - lastIndex s) (drop (lastIndex s) tx)"
proof -
  note e = exec_sound [OF assms]
  have "take (j - lastIndex s) (drop (lastIndex s) tx) =
          take (idx - lastIndex s) (drop (lastIndex s) tx) @ take (j - idx) (drop idx tx)"
    using e(1) e(2) by (intro drop_take_split) simp_all
  moreover have "take (j - idx) (drop idx tx) = 0x5B # l @ [0x5D]"
    using e(2) e(6) by simp
  ultimately show ?thesis
    using displayed_gap_span [OF e(1), of tx] displayed_anchor_of [of b s idx l] by simp
qed

text \<open>The loop only appends, and what it appends shows the text it has moved over.\<close>

lemma render_loop_appends:
  "lastIndex s \<le> length tx \<Longrightarrow>
     \<exists>ns. nodes (render_loop b tx s) = nodes s @ ns \<and>
          lastIndex s \<le> lastIndex (render_loop b tx s) \<and>
          lastIndex (render_loop b tx s) \<le> length tx \<and>
          concat (map displayed ns) =
            take (lastIndex (render_loop b tx s) - lastIndex s) (drop (lastIndex s) tx)"
proof (induction b tx s rule: render_loop.induct)
  case (1 b tx s)
  show ?case
  proof (cases "exec tx (lastIndex s)")
    case None
    then show ?thesis using "1.prems" by (simp add: render_loop_None)
  next
    case (Some m)
    obtain idx l j where m: "m = (idx, l, j)" by (cases m) auto
    note e = exec_sound [OF Some [unfolded m]]
    let ?s1 = "iteration b tx m s"
    have l1: "lastIndex ?s1 = j" by (simp add: m lastIndex_iteration)
    from "1.IH" [OF Some] l1 e(3) obtain ns where
      ns: "nodes (render_loop b tx ?s1) = nodes ?s1 @ ns"
        "j \<le> lastIndex (render_loop b tx ?s1)"
        "lastIndex (render_loop b tx ?s1) \<le> length tx"
        "concat (map displayed ns) = take (lastIndex (render_loop b tx ?s1) - j) (drop j tx)"
      by auto
    have r: "render_loop b tx s = render_loop b tx ?s1" by (rule render_loop_Some [OF Some])
    have ij: "lastIndex s \<le> j" using e(1) e(2) by simp
    have "take (lastIndex (render_loop b tx ?s1) - lastIndex s) (drop (lastIndex s) tx) =
            take (j - lastIndex s) (drop (lastIndex s) tx)
            @ take (lastIndex (render_loop b tx ?s1) - j) (drop j tx)"
      using ij ns(2) by (rule drop_take_split)
    then have "concat (map displayed (gap_span tx s idx @ [anchor_of b s idx l] @ ns)) =
            take (lastIndex (render_loop b tx ?s1) - lastIndex s) (drop (lastIndex s) tx)"
      using displayed_iteration [OF Some [unfolded m], of b] ns(4) by simp
    moreover have "nodes (render_loop b tx s) = nodes s @ gap_span tx s idx @ [anchor_of b s idx l] @ ns"
      using r ns(1) by (simp add: m nodes_iteration)
    ultimately show ?thesis using r ns(2) ns(3) ij by auto
  qed
qed

lemma renderContent_unfold:
  "renderContentWithReferences b tx rs =
     (let s = render_loop b tx (initial_loop rs)
      in (if lastIndex s < length tx
          then nodes s @ [Span (js ''text-'' @ dec (partIndex s)) (drop (lastIndex s) tx)]
          else nodes s,
          refs s))"
  by (simp add: renderContentWithReferences_def initial_loop_def)

lemma displayed_render:
  "concat (map displayed (fst (renderContentWithReferences b tx rs))) = tx"
proof -
  let ?s = "render_loop b tx (initial_loop rs)"
  from render_loop_appends [of "initial_loop rs" tx b]
  have d: "concat (map displayed (nodes ?s)) = take (lastIndex ?s) tx"
    and le: "lastIndex ?s \<le> length tx"
    by (auto simp: initial_loop_def)
  show ?thesis
  proof (cases "lastIndex ?s < length tx")
    case True
    then show ?thesis using d by (simp add: renderContent_unfold Let_def)
  next
    case False
    with le have "lastIndex ?s = length tx" by simp
    with d False show ?thesis by (simp add: renderContent_unfold Let_def)
  qed
qed


lemma not_digit_specials: "\<not> is_digit 0x5B" "\<not> is_digit 0x5D" "\<not> is_digit 0x2D"
  by (simp_all add: is_digit_def)

lemma digits_run:
  assumes "digits d" and "\<not> is_digit c"
  shows "takeWhile is_digit (d @ c # r) = d" and "dropWhile is_digit (d @ c # r) = c # r"
proof -
  from assms(1) have a: "\<And>x. x \<in> set d \<Longrightarrow> is_digit x"
    by (simp add: digits_def list_all_iff)
  show "takeWhile is_digit (d @ c # r) = d"
    using a assms(2) by (simp add: takeWhile_append2)
  show "dropWhile is_digit (d @ c # r) = c # r"
    using a assms(2) by (simp add: dropWhile_append2)
qed

lemma match_at_single:
  assumes "digits d"
  shows "match_at (0x5B # d @ 0x5D # post) = Some d"
  using assms digits_run [OF assms not_digit_specials(2), of post]
  by (simp add: match_at_def digits_def)

lemma match_at_range:
  assumes "digits d" and "digits e"
  shows "match_at (0x5B # d @ 0x2D # e @ 0x5D # post) = Some (d @ 0x2D # e)"
  using assms digits_run [OF assms(1) not_digit_specials(3), of "e @ 0x5D # post"]
    digits_run [OF assms(2) not_digit_specials(2), of post]
  by (simp add: match_at_def digits_def)

lemma digits_takeWhile: "takeWhile is_digit r \<noteq> [] \<Longrightarrow> digits (takeWhile is_digit r)"
  by (auto simp: digits_def list_all_iff dest: set_takeWhileD)

lemma match_at_label:
  assumes "match_at s = Some l"
  shows "digits l \<or> (\<exists>d e. digits d \<and> digits e \<and> l = d @ 0x2D # e)"
proof -
  from assms obtain r where s: "s = 0x5B # r"
    by (auto simp: match_at_def split: list.splits if_splits)
  from assms s have d1: "takeWhile is_digit r \<noteq> []"
    by (auto simp: match_at_def Let_def split: if_splits)
  from assms s obtain x r2 where r1: "dropWhile is_digit r = x # r2"
    by (auto simp: match_at_def Let_def split: list.splits if_splits)
  show ?thesis
  proof (cases "x = 0x5D")
    case True
    with assms s r1 have "l = takeWhile is_digit r"
      by (auto simp: match_at_def Let_def split: if_splits)
    with d1 show ?thesis by (simp add: digits_takeWhile)
  next
    case False
    with assms s r1 have "l = takeWhile is_digit r @ 0x2D # takeWhile is_digit r2"
      and "takeWhile is_digit r2 \<noteq> []"
      by (auto simp: match_at_def Let_def split: if_splits)
    with d1 show ?thesis using digits_takeWhile by blast
  qed
qed

lemma match_at_marker: "match_at s = Some l \<Longrightarrow> marker (0x5B # l @ [0x5D])"
  using match_at_label [of s l] by (auto simp: marker_def)

lemma marker_match_at: "marker m \<Longrightarrow> match_at (m @ post) \<noteq> None"
  by (auto simp: marker_def match_at_single match_at_range)

lemma label_chars:
  assumes "match_at s = Some l" and "c \<in> set l"
  shows "is_digit c \<or> c = 0x2D"
  using match_at_label [OF assms(1)] assms(2)
  by (auto simp: digits_def list_all_iff)

lemma contains_marker_search: "contains_marker tx \<longleftrightarrow> search tx 0 \<noteq> None"
proof
  assume "contains_marker tx"
  then obtain pre m post where t: "tx = pre @ m @ post" and m: "marker m"
    by (auto simp: contains_marker_def)
  from m have ne: "m \<noteq> []" by (auto simp: marker_def)
  show "search tx 0 \<noteq> None"
  proof
    assume n: "search tx 0 = None"
    have "length pre < length tx" using t ne by simp
    from search_None [OF n this] have "match_at (m @ post) = None" using t by simp
    with marker_match_at [OF m, of post] show False by simp
  qed
next
  assume "search tx 0 \<noteq> None"
  then obtain idx l where s: "search tx 0 = Some (idx, l)" by auto
  from search_sound [OF s] have ma: "match_at (drop idx tx) = Some l" by simp
  from match_at_shape [OF ma] obtain rest where d: "drop idx tx = 0x5B # l @ 0x5D # rest"
    by blast
  have "tx = take idx tx @ (0x5B # l @ [0x5D]) @ rest"
    using d by (metis append_Cons append_Nil append_assoc append_take_drop_id)
  with match_at_marker [OF ma] show "contains_marker tx"
    unfolding contains_marker_def by blast
qed

lemma text_0: "js ''text-'' @ dec 0 = js ''text-0''"
  by code_simp

lemma render_no_marker:
  assumes "\<not> contains_marker tx"
  shows "renderContentWithReferences b tx rs =
           (if tx = [] then [] else [Span (js ''text-0'') tx], rs)"
proof -
  from assms have "search tx 0 = None" using contains_marker_search [of tx] by blast
  then have "exec tx 0 = None" by (simp add: exec_def)
  then have "render_loop b tx (initial_loop rs) = initial_loop rs"
    by (intro render_loop_None) (simp add: initial_loop_def)
  then show ?thesis
    using text_0 by (simp add: renderContent_unfold initial_loop_def)
qed

text \<open>A match that starts before a marker ends before it.\<close>

lemma match_ends_before:
  assumes e: "exec tx i = Some (idx, l, j)" and p: "match_at (drop p tx) = Some l'"
    and ip: "i \<le> p"
  shows "idx \<le> p" and "idx < p \<Longrightarrow> j \<le> p" and "idx = p \<Longrightarrow> l = l'"
proof -
  note s = exec_sound [OF e]
  show le: "idx \<le> p"
  proof (rule ccontr)
    assume "\<not> idx \<le> p"
    with ip s(5) have "match_at (drop p tx) = None" by simp
    with p show False by simp
  qed
  show "idx = p \<Longrightarrow> l = l'" using s(4) p by simp
  show "j \<le> p" if lt: "idx < p"
  proof (rule ccontr)
    assume "\<not> j \<le> p"
    then have pj: "p < j" by simp
    from match_at_shape [OF p] obtain r' where dp: "drop p tx = 0x5B # l' @ 0x5D # r'" by blast
    then have plen: "p < length tx" by (cases "p < length tx") auto
    with dp have c: "tx ! p = 0x5B" by (metis nth_via_drop)
    define k where "k = p - idx"
    have k: "0 < k" "k < length l + 2" using lt pj s(2) by (simp_all add: k_def)
    have "tx ! p = drop idx tx ! k" using lt plen by (simp add: k_def)
    also have "\<dots> = take (length l + 2) (drop idx tx) ! k" using k by simp
    also have "\<dots> = (0x5B # l @ [0x5D]) ! k" using s(6) by simp
    finally have v: "tx ! p = (0x5B # l @ [0x5D]) ! k" .
    obtain k' where k': "k = Suc k'" using k(1) by (cases k) auto
    have "(l @ [0x5D]) ! k' \<in> set (l @ [0x5D])" using k k' by (intro nth_mem) simp
    with v k' have "tx ! p \<in> set l \<or> tx ! p = 0x5D" by auto
    with c have "0x5B \<in> set l" by auto
    from label_chars [OF s(4) this] not_digit_specials(1) show False by simp
  qed
qed

lemma exec_finds:
  assumes p: "match_at (drop p tx) = Some l'" and ip: "i \<le> p"
  shows "exec tx i \<noteq> None"
proof
  assume n: "exec tx i = None"
  from match_at_shape [OF p] obtain r' where "drop p tx = 0x5B # l' @ 0x5D # r'" by blast
  then have plen: "p < length tx" by (cases "p < length tx") auto
  with ip n have sn: "search (drop i tx) i = None"
    by (auto simp: exec_def split: if_splits option.splits)
  have "p - i < length (drop i tx)" using plen ip by simp
  from search_None [OF sn this] have "match_at (drop p tx) = None" using ip by simp
  with p show False by simp
qed

text \<open>Every place where the pattern matches gets its anchor.\<close>

lemma render_loop_marker:
  "match_at (drop p tx) = Some l \<Longrightarrow> lastIndex s \<le> p \<Longrightarrow>
     \<exists>ns1 ns2 s'. nodes (render_loop b tx s) = nodes s @ ns1 @ [anchor_of b s' p l] @ ns2 \<and>
       concat (map displayed ns1) = take (p - lastIndex s) (drop (lastIndex s) tx)"
proof (induction b tx s rule: render_loop.induct)
  case (1 b tx s)
  note p = "1.prems"(1) and ip = "1.prems"(2)
  from exec_finds [OF p ip] obtain m where Some: "exec tx (lastIndex s) = Some m" by blast
  obtain idx l' j where m: "m = (idx, l', j)" by (cases m) auto
  note e = exec_sound [OF Some [unfolded m]]
  note b = match_ends_before [OF Some [unfolded m] p ip]
  let ?s1 = "iteration b tx m s"
  have r: "render_loop b tx s = render_loop b tx ?s1" by (rule render_loop_Some [OF Some])
  have l1: "lastIndex ?s1 = j" by (simp add: m lastIndex_iteration)
  show ?case
  proof (cases "idx = p")
    case True
    with b(3) have ll: "l' = l" by simp
    from render_loop_appends [of ?s1 tx b] l1 e(3) obtain ns where
      "nodes (render_loop b tx ?s1) = nodes ?s1 @ ns" by auto
    then have "nodes (render_loop b tx s) = nodes s @ gap_span tx s p @ [anchor_of b s p l] @ ns"
      using r True ll by (simp add: m nodes_iteration)
    moreover have "concat (map displayed (gap_span tx s p)) =
                     take (p - lastIndex s) (drop (lastIndex s) tx)"
      using ip by (rule displayed_gap_span)
    ultimately show ?thesis by blast
  next
    case False
    with b(1) have lt: "idx < p" by simp
    with b(2) have jp: "j \<le> p" by simp
    from "1.IH" [OF Some p] l1 jp obtain ns1 ns2 s' where
      ih: "nodes (render_loop b tx ?s1) = nodes ?s1 @ ns1 @ [anchor_of b s' p l] @ ns2"
        "concat (map displayed ns1) = take (p - j) (drop j tx)"
      by auto
    have ij: "lastIndex s \<le> j" using e(1) e(2) by simp
    have "nodes (render_loop b tx s) =
            nodes s @ (gap_span tx s idx @ [anchor_of b s idx l'] @ ns1) @ [anchor_of b s' p l] @ ns2"
      using r ih(1) by (simp add: m nodes_iteration)
    moreover have "concat (map displayed (gap_span tx s idx @ [anchor_of b s idx l'] @ ns1)) =
            take (p - lastIndex s) (drop (lastIndex s) tx)"
      using displayed_iteration [OF Some [unfolded m], of b] ih(2)
        drop_take_split [OF ij jp, of tx] by simp
    ultimately show ?thesis by blast
  qed
qed


lemma digit_char: "is_digit d \<Longrightarrow> of_nat (0x30 + (unat d - 0x30)) = d"
proof -
  assume "is_digit d"
  then have "0x30 \<le> unat d" by (simp add: is_digit_def word_le_nat_alt)
  then have "0x30 + (unat d - 0x30) = unat d" by simp
  then show ?thesis by simp
qed

lemma digit_value_bound: "is_digit d \<Longrightarrow> unat d - 0x30 < 10"
proof -
  assume "is_digit d"
  then have "unat d \<le> 0x39" by (simp add: is_digit_def word_le_nat_alt)
  then show ?thesis by arith
qed

lemma digit_value_zero: "is_digit d \<Longrightarrow> unat d - 0x30 = 0 \<longleftrightarrow> d = 0x30"
proof -
  assume d: "is_digit d"
  then have "0x30 \<le> unat d" by (simp add: is_digit_def word_le_nat_alt)
  then have "unat d - 0x30 = 0 \<longleftrightarrow> unat d = 0x30" by auto
  also have "\<dots> \<longleftrightarrow> d = 0x30"
  proof
    assume "unat d = 0x30"
    then have "of_nat (unat d) = (of_nat 0x30 :: 16 word)" by simp
    then show "d = 0x30" by simp
  next
    assume "d = 0x30"
    then show "unat d = 0x30" by simp
  qed
  finally show ?thesis .
qed

lemma digits_value_snoc:
  "digits_value (ds @ [d]) = 10 * digits_value ds + (unat d - 0x30)"
  by (simp add: digits_value_def)

lemma digits_value_zero:
  "list_all is_digit ds \<Longrightarrow> digits_value ds = 0 \<longleftrightarrow> dropWhile (\<lambda>c. c = 0x30) ds = []"
proof (induction ds rule: rev_induct)
  case Nil
  then show ?case by (simp add: digits_value_def)
next
  case (snoc d ds)
  then have d: "is_digit d" and ds: "list_all is_digit ds" by simp_all
  show ?case
    using snoc.IH [OF ds] digit_value_zero [OF d]
    by (auto simp: digits_value_snoc dropWhile_append dropWhile_eq_Nil_conv)
qed

lemma dec_snoc:
  assumes "dv < 10"
  shows "dec (10 * v + dv) = (if v = 0 then [of_nat (0x30 + dv)] else dec v @ [of_nat (0x30 + dv)])"
proof (cases "v = 0")
  case True
  with assms show ?thesis by (subst dec.simps) simp
next
  case False
  with assms have "\<not> 10 * v + dv < 10" "(10 * v + dv) div 10 = v" "(10 * v + dv) mod 10 = dv"
    by simp_all
  then show ?thesis using False by (subst dec.simps) simp
qed

lemma dec_digits_value:
  "list_all is_digit ds \<Longrightarrow> dec (digits_value ds) = strip_zeros ds"
proof (induction ds rule: rev_induct)
  case Nil
  show ?case by (simp add: digits_value_def strip_zeros_def dec.simps)
next
  case (snoc d ds)
  then have d: "is_digit d" and ds: "list_all is_digit ds" by simp_all
  note z = digits_value_zero [OF ds]
  show ?case
  proof (cases "digits_value ds = 0")
    case True
    with z have a: "dropWhile (\<lambda>c. c = 0x30) ds = []" by simp
    then have "\<forall>x\<in>set ds. x = 0x30" by (simp add: dropWhile_eq_Nil_conv)
    then have "dropWhile (\<lambda>c. c = 0x30) (ds @ [d]) = dropWhile (\<lambda>c. c = 0x30) [d]"
      by (simp add: dropWhile_append2)
    then have "strip_zeros (ds @ [d]) = [d]" by (simp add: strip_zeros_def)
    moreover have "dec (digits_value (ds @ [d])) = [d]"
      using True dec_snoc [OF digit_value_bound [OF d], of "digits_value ds"] digit_char [OF d]
      by (simp add: digits_value_snoc)
    ultimately show ?thesis by simp
  next
    case False
    with z have a: "dropWhile (\<lambda>c. c = 0x30) ds \<noteq> []" by simp
    then have e: "dropWhile (\<lambda>c. c = 0x30) (ds @ [d]) = dropWhile (\<lambda>c. c = 0x30) ds @ [d]"
      by (auto simp: dropWhile_append dropWhile_eq_Nil_conv)
    have "strip_zeros (ds @ [d]) = dropWhile (\<lambda>c. c = 0x30) ds @ [d]"
      unfolding strip_zeros_def e by simp
    moreover have "strip_zeros ds = dropWhile (\<lambda>c. c = 0x30) ds"
      by (simp only: strip_zeros_def a if_False)
    ultimately have "strip_zeros (ds @ [d]) = strip_zeros ds @ [d]" by simp
    moreover have "dec (digits_value (ds @ [d])) = dec (digits_value ds) @ [d]"
      using False dec_snoc [OF digit_value_bound [OF d], of "digits_value ds"] digit_char [OF d]
      by (simp add: digits_value_snoc)
    ultimately show ?thesis using snoc.IH [OF ds] by simp
  qed
qed

lemma anchorTarget_single:
  assumes "digits n" and "int (digits_value n) \<le> exact_limit"
  shows "anchorTarget b n = strip_zeros n"
proof -
  from assms(1) have a: "list_all is_digit n" by (simp add: digits_def)
  then have "0x2D \<notin> set n" using not_digit_specials(3) by (auto simp: list_all_iff)
  then show ?thesis
    using assms(2) dec_digits_value [OF a] by (simp add: anchorTarget_def number_string_def)
qed

lemma anchorTarget_range:
  assumes "digits m" and "int (digits_value m) \<le> exact_limit"
  shows "anchorTarget b (m @ 0x2D # k) = strip_zeros m"
proof -
  from assms(1) have a: "list_all is_digit m" by (simp add: digits_def)
  then have "\<And>x. x \<in> set m \<Longrightarrow> x \<noteq> 0x2D" using not_digit_specials(3) by (auto simp: list_all_iff)
  then have "takeWhile (\<lambda>c. c \<noteq> 0x2D) (m @ 0x2D # k) = m"
    by (simp add: takeWhile_append2)
  then show ?thesis
    using assms(2) dec_digits_value [OF a] by (simp add: anchorTarget_def number_string_def)
qed

text \<open>Where the pattern matches at the end of \<open>pre\<close>, the nodes are those for \<open>pre\<close>, one
  anchor for the match, and those for what follows.\<close>

lemma render_marker:
  assumes "match_at (l0 @ post) = Some l" and "l0 = 0x5B # l @ [0x5D]"
  shows "\<exists>before k i after.
           fst (renderContentWithReferences b (pre @ l0 @ post) rs) =
             before @ [Anchor k i (js ''#reference-'' @ anchorTarget b l) [js ''['', l, js '']'']] @ after \<and>
           concat (map displayed before) = pre \<and> concat (map displayed after) = post"
proof -
  let ?tx = "pre @ l0 @ post"
  let ?s = "render_loop b ?tx (initial_loop rs)"
  have m: "match_at (drop (length pre) ?tx) = Some l" using assms(1) by simp
  from render_loop_marker [OF m, of "initial_loop rs" b] obtain ns1 ns2 s' where
    n: "nodes ?s = ns1 @ [anchor_of b s' (length pre) l] @ ns2"
    and d1: "concat (map displayed ns1) = pre"
    by (auto simp: initial_loop_def)
  define tail where "tail = (if lastIndex ?s < length ?tx
       then [Span (js ''text-'' @ dec (partIndex ?s)) (drop (lastIndex ?s) ?tx)] else [])"
  have f: "fst (renderContentWithReferences b ?tx rs) =
             ns1 @ [anchor_of b s' (length pre) l] @ (ns2 @ tail)"
    using n by (simp add: renderContent_unfold Let_def tail_def)
  have "concat (map displayed (fst (renderContentWithReferences b ?tx rs))) = ?tx"
    by (rule displayed_render)
  with f d1 have "pre @ l0 @ concat (map displayed (ns2 @ tail)) = pre @ l0 @ post"
    using displayed_anchor_of [of b s' "length pre" l] assms(2) by simp
  then have d2: "concat (map displayed (ns2 @ tail)) = post" by simp
  from f d1 d2 show ?thesis unfolding anchor_of_def by blast
qed


text \<open>
  C6. The texts shown by the nodes of \<open>renderContentWithReferences\<close>, spans and
  anchors alike, put one after the other are the input text.
\<close>

theorem annotation_preserves_text:
  "concat (map displayed (fst (renderContentWithReferences beyond tx rs))) = tx"
  by (rule displayed_render)

text \<open>
  C5. For a text with no substring of the form \<open>[n]\<close> or \<open>[m-k]\<close>,
  \<open>renderContentWithReferences\<close> returns the text unchanged in a single span (no node
  at all for the empty text), no anchor, and leaves the refs as they were.
\<close>

theorem no_marker_unchanged:
  assumes "\<not> contains_marker tx"
  shows "renderContentWithReferences beyond tx rs =
           (if tx = [] then [] else [Span (js ''text-0'') tx], rs)"
  using assms by (rule render_no_marker)

theorem no_marker_unchanged_witness:
  "renderContentWithReferences unused_beyond (js ''no markers: [x] [1-] [] [-2] [1-2-3]'') no_refs =
     ([Span (js ''text-0'') (js ''no markers: [x] [1-] [] [-2] [1-2-3]'')], no_refs)"
proof -
  have "search (js ''no markers: [x] [1-] [] [-2] [1-2-3]'') 0 = None" by code_simp
  then have h: "\<not> contains_marker (js ''no markers: [x] [1-] [] [-2] [1-2-3]'')"
    by (simp add: contains_marker_search)
  have ne: "js ''no markers: [x] [1-] [] [-2] [1-2-3]'' \<noteq> []" by (simp add: js_def)
  from no_marker_unchanged [OF h, of unused_beyond no_refs] ne show ?thesis by simp
qed

text \<open>
  C2, as amended. Every occurrence of a marker \<open>[n]\<close>, \<open>n\<close> a digit sequence of value
  at most \<open>2^53\<close>, is rendered as one anchor that shows \<open>[n]\<close> and whose \<open>href\<close> is
  \<open>#reference-\<close> followed by \<open>n\<close> without its leading zeros; the nodes before it show
  the text before the marker and the nodes after it the text after.
\<close>

theorem marker_anchor:
  assumes "digits n" and "int (digits_value n) \<le> exact_limit"
  shows "\<exists>before k i after.
           fst (renderContentWithReferences beyond (pre @ js ''['' @ n @ js '']'' @ post) rs) =
             before @ [Anchor k i (js ''#reference-'' @ strip_zeros n) [js ''['', n, js '']'']]
               @ after \<and>
           concat (map displayed before) = pre \<and> concat (map displayed after) = post"
proof -
  have m: "match_at ((0x5B # n @ [0x5D]) @ post) = Some n"
    using match_at_single [OF assms(1), of post] by simp
  have e: "pre @ js ''['' @ n @ js '']'' @ post = pre @ (0x5B # n @ [0x5D]) @ post"
    by (simp add: js_brackets)
  show ?thesis
    unfolding e using render_marker [OF m refl, of beyond pre rs]
    by (simp only: anchorTarget_single [OF assms])
qed

lemma digits_12: "digits (js ''12'')" "int (digits_value (js ''12'')) \<le> exact_limit"
  "strip_zeros (js ''12'') = js ''12''"
  by code_simp+

theorem marker_anchor_witness:
  "\<exists>before k i after.
     fst (renderContentWithReferences unused_beyond (js ''see [12].'') no_refs) =
       before @ [Anchor k i (js ''#reference-12'') [js ''['', js ''12'', js '']'']] @ after \<and>
     concat (map displayed before) = js ''see '' \<and> concat (map displayed after) = js ''.''"
proof -
  have e: "js ''see '' @ js ''['' @ js ''12'' @ js '']'' @ js ''.'' = js ''see [12].''"
    "js ''#reference-'' @ js ''12'' = js ''#reference-12''"
    by (simp_all add: js_def)
  from marker_anchor [OF digits_12(1) digits_12(2), of unused_beyond "js ''see ''" "js ''.''" no_refs]
  show ?thesis by (simp only: e digits_12(3))
qed

text \<open>
  C2, as stated, fails: the marker \<open>[007]\<close> links to \<open>#reference-7\<close>, not to
  \<open>#reference-007\<close>.
\<close>

theorem leading_zeros_dropped:
  "fst (renderContentWithReferences unused_beyond (js ''[007]'') no_refs) =
     [Anchor (js ''ref-0'') (js ''ref-link-7-0'') (js ''#reference-7'')
        [js ''['', js ''007'', js '']'']] \<and>
   js ''#reference-7'' \<noteq> js ''#reference-007''"
  by code_simp

text \<open>
  C9, as amended. Every occurrence of a range marker \<open>[m-k]\<close>, \<open>m\<close> of value at most
  \<open>2^53\<close>, is rendered as one anchor that shows the whole marker \<open>[m-k]\<close> and whose
  \<open>href\<close> is \<open>#reference-\<close> followed by \<open>m\<close> without its leading zeros.
\<close>

theorem range_anchor:
  assumes "digits m" and "digits k" and "int (digits_value m) \<le> exact_limit"
  shows "\<exists>before key i after.
           fst (renderContentWithReferences beyond
                  (pre @ js ''['' @ m @ js ''-'' @ k @ js '']'' @ post) rs) =
             before @ [Anchor key i (js ''#reference-'' @ strip_zeros m)
                         [js ''['', m @ js ''-'' @ k, js '']'']] @ after \<and>
           concat (map displayed before) = pre \<and> concat (map displayed after) = post"
proof -
  have h: "js ''-'' = [0x2D]" by (simp add: js_def)
  have ma: "match_at ((0x5B # (m @ 0x2D # k) @ [0x5D]) @ post) = Some (m @ 0x2D # k)"
    using match_at_range [OF assms(1) assms(2), of post] by simp
  have e: "pre @ js ''['' @ m @ js ''-'' @ k @ js '']'' @ post =
           pre @ (0x5B # (m @ 0x2D # k) @ [0x5D]) @ post"
    by (simp add: js_brackets h)
  have c: "m @ js ''-'' @ k = m @ 0x2D # k" by (simp add: h)
  show ?thesis
    unfolding e c using render_marker [OF ma refl, of beyond pre rs]
    by (simp only: anchorTarget_range [OF assms(1) assms(3)])
qed

lemma digits_3_5: "digits (js ''3'')" "digits (js ''5'')" "int (digits_value (js ''3'')) \<le> exact_limit"
  "strip_zeros (js ''3'') = js ''3''"
  by code_simp+

theorem range_anchor_witness:
  "\<exists>before key i after.
     fst (renderContentWithReferences unused_beyond (js ''as in [3-5]'') no_refs) =
       before @ [Anchor key i (js ''#reference-3'') [js ''['', js ''3-5'', js '']'']] @ after \<and>
     concat (map displayed before) = js ''as in '' \<and> concat (map displayed after) = []"
proof -
  have e: "js ''as in '' @ js ''['' @ js ''3'' @ js ''-'' @ js ''5'' @ js '']'' @ [] = js ''as in [3-5]''"
    "js ''#reference-'' @ js ''3'' = js ''#reference-3''"
    "js ''3'' @ js ''-'' @ js ''5'' = js ''3-5''"
    by (simp_all add: js_def)
  from range_anchor [OF digits_3_5(1) digits_3_5(2) digits_3_5(3),
                     of unused_beyond "js ''as in ''" "[]" no_refs]
  show ?thesis by (simp only: e digits_3_5(4))
qed

text \<open>
  C9, as stated, fails: the marker \<open>[03-5]\<close> links to \<open>#reference-3\<close>, not to
  \<open>#reference-03\<close>.
\<close>

theorem range_leading_zeros_dropped:
  "fst (renderContentWithReferences unused_beyond (js ''[03-5]'') no_refs) =
     [Anchor (js ''ref-0'') (js ''ref-link-3-0'') (js ''#reference-3'')
        [js ''['', js ''03-5'', js '']'']] \<and>
   js ''#reference-3'' \<noteq> js ''#reference-03''"
  by code_simp


lemma gap_span_cong:
  "lastIndex s1 = lastIndex s2 \<Longrightarrow> partIndex s1 = partIndex s2 \<Longrightarrow>
     gap_span tx s1 idx = gap_span tx s2 idx"
  by (simp add: gap_span_def)

lemma erase_anchor_cong:
  "lastIndex s1 = lastIndex s2 \<Longrightarrow> partIndex s1 = partIndex s2 \<Longrightarrow>
     erase_id (anchor_of b s1 idx l) = erase_id (anchor_of b s2 idx l)"
  by (simp add: anchor_of_def)

lemma anchor_cong:
  "lastIndex s1 = lastIndex s2 \<Longrightarrow> partIndex s1 = partIndex s2 \<Longrightarrow>
   refOccurrences (refs s1) = refOccurrences (refs s2) \<Longrightarrow>
     anchor_of b s1 idx l = anchor_of b s2 idx l"
  by (simp add: anchor_of_def)

text \<open>Two runs of the loop from the same position and part counter differ in the ids
  at most.\<close>

lemma render_loop_erased:
  "lastIndex s1 = lastIndex s2 \<Longrightarrow> partIndex s1 = partIndex s2 \<Longrightarrow>
   map erase_id (nodes s1) = map erase_id (nodes s2) \<Longrightarrow>
     lastIndex (render_loop b tx s1) = lastIndex (render_loop b tx s2) \<and>
     partIndex (render_loop b tx s1) = partIndex (render_loop b tx s2) \<and>
     map erase_id (nodes (render_loop b tx s1)) = map erase_id (nodes (render_loop b tx s2))"
proof (induction b tx s1 arbitrary: s2 rule: render_loop.induct)
  case (1 b tx s1)
  show ?case
  proof (cases "exec tx (lastIndex s1)")
    case None
    then have "exec tx (lastIndex s2) = None" using "1.prems"(1) by simp
    with None "1.prems" show ?thesis by (simp add: render_loop_None)
  next
    case (Some m)
    then have Some2: "exec tx (lastIndex s2) = Some m" using "1.prems"(1) by simp
    obtain idx l j where m: "m = (idx, l, j)" by (cases m) auto
    have a: "lastIndex (iteration b tx m s1) = lastIndex (iteration b tx m s2)"
      by (simp add: m lastIndex_iteration)
    have p: "partIndex (iteration b tx m s1) = partIndex (iteration b tx m s2)"
      using "1.prems"(1,2) by (simp add: m partIndex_iteration)
    have n: "map erase_id (nodes (iteration b tx m s1)) = map erase_id (nodes (iteration b tx m s2))"
      using "1.prems"(3) gap_span_cong [OF "1.prems"(1,2), of tx idx]
        erase_anchor_cong [OF "1.prems"(1,2), of b idx l]
      by (simp add: m nodes_iteration)
    from "1.IH" [OF Some a p n] show ?thesis
      by (simp add: render_loop_Some [OF Some] render_loop_Some [OF Some2])
  qed
qed

text \<open>From the same occurrence counts they do not differ at all.\<close>

lemma render_loop_counts:
  "lastIndex s1 = lastIndex s2 \<Longrightarrow> partIndex s1 = partIndex s2 \<Longrightarrow>
   refOccurrences (refs s1) = refOccurrences (refs s2) \<Longrightarrow> nodes s1 = nodes s2 \<Longrightarrow>
     lastIndex (render_loop b tx s1) = lastIndex (render_loop b tx s2) \<and>
     partIndex (render_loop b tx s1) = partIndex (render_loop b tx s2) \<and>
     nodes (render_loop b tx s1) = nodes (render_loop b tx s2)"
proof (induction b tx s1 arbitrary: s2 rule: render_loop.induct)
  case (1 b tx s1)
  show ?case
  proof (cases "exec tx (lastIndex s1)")
    case None
    then have "exec tx (lastIndex s2) = None" using "1.prems"(1) by simp
    with None "1.prems" show ?thesis by (simp add: render_loop_None)
  next
    case (Some m)
    then have Some2: "exec tx (lastIndex s2) = Some m" using "1.prems"(1) by simp
    obtain idx l j where m: "m = (idx, l, j)" by (cases m) auto
    have a: "lastIndex (iteration b tx m s1) = lastIndex (iteration b tx m s2)"
      by (simp add: m lastIndex_iteration)
    have p: "partIndex (iteration b tx m s1) = partIndex (iteration b tx m s2)"
      using "1.prems"(1,2) by (simp add: m partIndex_iteration)
    have c: "refOccurrences (refs (iteration b tx m s1)) =
             refOccurrences (refs (iteration b tx m s2))"
      using "1.prems"(3) by (simp add: m refOccurrences_iteration)
    have n: "nodes (iteration b tx m s1) = nodes (iteration b tx m s2)"
      using "1.prems"(4) gap_span_cong [OF "1.prems"(1,2), of tx idx]
        anchor_cong [OF "1.prems"(1,2,3), of b idx l]
      by (simp add: m nodes_iteration)
    from "1.IH" [OF Some a p c n] show ?thesis
      by (simp add: render_loop_Some [OF Some] render_loop_Some [OF Some2])
  qed
qed

text \<open>
  C3, as amended. The segmentation, the keys, the texts shown and the \<open>href\<close>s depend
  on the text alone; the \<open>id\<close>s of the anchors depend on the text and on the
  occurrence counts that earlier annotations left in \<open>refOccurrencesRef\<close>, and on
  nothing else.
\<close>

theorem annotation_determined_by_text_and_counts:
  "map erase_id (fst (renderContentWithReferences beyond tx rs1)) =
     map erase_id (fst (renderContentWithReferences beyond tx rs2)) \<and>
   (refOccurrences rs1 = refOccurrences rs2 \<longrightarrow>
      fst (renderContentWithReferences beyond tx rs1) =
        fst (renderContentWithReferences beyond tx rs2))"
proof
  from render_loop_erased [of "initial_loop rs1" "initial_loop rs2" beyond tx]
  show "map erase_id (fst (renderContentWithReferences beyond tx rs1)) =
     map erase_id (fst (renderContentWithReferences beyond tx rs2))"
    by (simp add: renderContent_unfold Let_def initial_loop_def)
next
  show "refOccurrences rs1 = refOccurrences rs2 \<longrightarrow>
      fst (renderContentWithReferences beyond tx rs1) =
        fst (renderContentWithReferences beyond tx rs2)"
  proof
    assume "refOccurrences rs1 = refOccurrences rs2"
    with render_loop_counts [of "initial_loop rs1" "initial_loop rs2" beyond tx]
    show "fst (renderContentWithReferences beyond tx rs1) =
        fst (renderContentWithReferences beyond tx rs2)"
      by (simp add: renderContent_unfold Let_def initial_loop_def)
  qed
qed

theorem annotation_determined_by_text_and_counts_witness:
  "refOccurrences no_refs = refOccurrences seen_refs \<and>
   fst (renderContentWithReferences unused_beyond (js ''[1] and [1]'') no_refs) =
     fst (renderContentWithReferences unused_beyond (js ''[1] and [1]'') seen_refs)"
proof -
  have h: "refOccurrences no_refs = refOccurrences seen_refs"
    by (simp add: no_refs_def seen_refs_def)
  from annotation_determined_by_text_and_counts
         [of unused_beyond "js ''[1] and [1]''" no_refs seen_refs] h
  show ?thesis by blast
qed

text \<open>
  C3, as stated, fails: annotating \<open>[1]\<close> a second time gives the anchor the \<open>id\<close>
  \<open>ref-link-1-1\<close> where the first time gave \<open>ref-link-1-0\<close>.
\<close>

theorem second_annotation_differs:
  "fst (renderContentWithReferences unused_beyond (js ''[1]'') no_refs) =
     [Anchor (js ''ref-0'') (js ''ref-link-1-0'') (js ''#reference-1'')
        [js ''['', js ''1'', js '']'']] \<and>
   fst (renderContentWithReferences unused_beyond (js ''[1]'')
          (snd (renderContentWithReferences unused_beyond (js ''[1]'') no_refs))) =
     [Anchor (js ''ref-0'') (js ''ref-link-1-1'') (js ''#reference-1'')
        [js ''['', js ''1'', js '']'']] \<and>
   js ''ref-link-1-0'' \<noteq> js ''ref-link-1-1''"
  by code_simp

end
